theory Spec2Isabelle
  imports Complex_Main "HOL-Library.Tree"
begin

section \<open>The binary search tree of bintree.cpp\<close>

text \<open>
  The class \<^verbatim>\<open>BinTree\<close> keeps a pointer \<^verbatim>\<open>root\<close> to a tree of \<^verbatim>\<open>Node\<close> structs; every
  node holds a pointer \<^verbatim>\<open>data\<close> to a \<^verbatim>\<open>NodeData\<close> object and two child pointers.

  \<^item> A \<^verbatim>\<open>NodeData*\<close> is an address or \<^verbatim>\<open>NULL\<close> (\<open>None\<close>). The \<^verbatim>\<open>NodeData\<close> objects live in a
    store, since \<^verbatim>\<open>compare\<close> looks at the pointers themselves while \<^verbatim>\<open>insertItem\<close>,
    \<^verbatim>\<open>retrieveItem\<close> and \<^verbatim>\<open>depth\<close> look at the objects behind them.
  \<^item> Nodes are never shared or compared by address in the source: every \<^verbatim>\<open>Node*\<close> has one
    owner and is updated through a \<^verbatim>\<open>Node*&\<close>. A \<^verbatim>\<open>Node*\<close> is therefore the datatype
    \<open>node\<close>, with \<open>Null\<close> for \<^verbatim>\<open>NULL\<close>, and an update through the reference is the
    updated value handed back.
  \<^item> \<^verbatim>\<open>struct Node\<close> has no constructor, so the child links of a node made by \<^verbatim>\<open>new Node\<close>
    hold whatever the memory held until they are assigned. \<^verbatim>\<open>copyTree\<close> assigns both;
    \<^verbatim>\<open>insertItem\<close> assigns neither. The store carries an oracle \<open>stale\<close> that says for
    which allocation requests the memory handed out does not read as zero.
  \<^item> Dereferencing \<^verbatim>\<open>NULL\<close> or a deleted object, deleting an object twice and indexing an
    array out of its bounds are undefined in C++; the model returns \<open>Inl Undefined\<close>.
  \<^item> \<^verbatim>\<open>new\<close> may throw \<^verbatim>\<open>bad_alloc\<close>. The store carries an oracle \<open>oom\<close> that says which
    allocation requests fail, and counts the requests made.
\<close>

subsection \<open>Pointers, the store and allocation\<close>

type_synonym addr = nat

type_synonym ptr = "addr option"

datatype node = Null | Node ptr node node

datatype error = Undefined | Partial_Copy | Unset_Links

record 'a store =
  cells :: "'a option list"
  oom :: "nat \<Rightarrow> bool"
  stale :: "nat \<Rightarrow> bool"
  reqs :: nat

text \<open>
  Modelled from the spec: \<^verbatim>\<open>NodeData\<close> (nodedata.h is not among the sources) is any value
  type with a total order \<^verbatim>\<open><\<close> and an equality test \<^verbatim>\<open>==\<close>; here a type \<open>'a\<close> of class
  \<open>linorder\<close>, with \<open>=\<close> for \<^verbatim>\<open>==\<close>.
\<close>

text \<open>The object a \<^verbatim>\<open>NodeData*\<close> points to, if it points to a live one.\<close>

definition obj :: "'a store \<Rightarrow> ptr \<Rightarrow> 'a option" where
  "obj m p = (case p of None \<Rightarrow> None
              | Some a \<Rightarrow> if a < length (cells m) then cells m ! a else None)"

text \<open>\<^verbatim>\<open>operator new\<close>: the request is counted and granted unless the oracle refuses it.\<close>

definition operator_new :: "'a store \<Rightarrow> bool \<times> 'a store" where
  "operator_new m = (\<not> oom m (reqs m), m\<lparr>reqs := Suc (reqs m)\<rparr>)"

text \<open>The granted \<^verbatim>\<open>NodeData\<close> is constructed at an address that held no object before.\<close>

definition construct :: "'a store \<Rightarrow> 'a \<Rightarrow> addr \<times> 'a store" where
  "construct m v = (length (cells m), m\<lparr>cells := cells m @ [Some v]\<rparr>)"

text \<open>\<^verbatim>\<open>delete p\<close> for a non-null \<^verbatim>\<open>NodeData*\<close>.\<close>

definition delete_NodeData :: "'a store \<Rightarrow> addr \<Rightarrow> error + 'a store" where
  "delete_NodeData m a =
     (case obj m (Some a) of None \<Rightarrow> Inl Undefined
      | Some v \<Rightarrow> Inr (m\<lparr>cells := (cells m)[a := None]\<rparr>))"

text \<open>An array \<^verbatim>\<open>NodeData *target[]\<close> is the list of its slots; the index is a C++ \<^verbatim>\<open>int\<close>.\<close>

definition read_slot :: "ptr list \<Rightarrow> int \<Rightarrow> error + ptr" where
  "read_slot a i = (if 0 \<le> i \<and> i < int (length a) then Inr (a ! nat i) else Inl Undefined)"

definition write_slot :: "ptr list \<Rightarrow> int \<Rightarrow> ptr \<Rightarrow> error + ptr list" where
  "write_slot a i p = (if 0 \<le> i \<and> i < int (length a) then Inr (a[nat i := p]) else Inl Undefined)"

subsection \<open>Emptying and copying\<close>

definition isEmpty :: "node \<Rightarrow> bool" where
  "isEmpty this_root = (this_root = Null)"

fun destroyTree :: "'a store \<Rightarrow> node \<Rightarrow> error + ('a store \<times> node)" where
  "destroyTree m Null = Inr (m, Null)"
| "destroyTree m (Node d l r) =
     (case destroyTree m l of Inl e \<Rightarrow> Inl e
      | Inr (m1, l') \<Rightarrow>
     (case destroyTree m1 r of Inl e \<Rightarrow> Inl e
      | Inr (m2, r') \<Rightarrow>
     (case d of None \<Rightarrow> Inr (m2, Null)
      | Some a \<Rightarrow>
     (case delete_NodeData m2 a of Inl e \<Rightarrow> Inl e
      | Inr m3 \<Rightarrow> Inr (m3, Null)))))"

definition makeEmpty :: "'a store \<Rightarrow> node \<Rightarrow> error + ('a store \<times> node)" where
  "makeEmpty m this_root = destroyTree m this_root"

text \<open>
  \<^verbatim>\<open>copyTree\<close> catches \<^verbatim>\<open>bad_alloc\<close> at the level that threw it and goes on, leaving
  \<^verbatim>\<open>newTreePtr\<close> or the fields of the new node unset. The model stops there with
  \<open>Inl Partial_Copy\<close>: the destination then holds indeterminate links.
\<close>

fun copyTree :: "'a store \<Rightarrow> node \<Rightarrow> error + ('a store \<times> node)" where
  "copyTree m Null = Inr (m, Null)"
| "copyTree m (Node d l r) =
     (case operator_new m of
        (False, m1) \<Rightarrow> Inl Partial_Copy
      | (True, m1) \<Rightarrow>
     (case operator_new m1 of
        (False, m2) \<Rightarrow> Inl Partial_Copy
      | (True, m2) \<Rightarrow>
     (case obj m2 d of None \<Rightarrow> Inl Undefined
      | Some v \<Rightarrow>
     (case construct m2 v of (a, m3) \<Rightarrow>
     (case copyTree m3 l of Inl e \<Rightarrow> Inl e
      | Inr (m4, l') \<Rightarrow>
     (case copyTree m4 r of Inl e \<Rightarrow> Inl e
      | Inr (m5, r') \<Rightarrow> Inr (m5, Node (Some a) l' r')))))))"

definition copy_constructor :: "'a store \<Rightarrow> node \<Rightarrow> error + ('a store \<times> node)" where
  "copy_constructor m orig = copyTree m orig"

subsection \<open>Equality\<close>

text \<open>\<^verbatim>\<open>lhs->data == rhs->data\<close> compares two \<^verbatim>\<open>NodeData*\<close>: the addresses, not the objects.\<close>

fun compare :: "node \<Rightarrow> node \<Rightarrow> bool" where
  "compare Null Null = True"
| "compare (Node d1 l1 r1) (Node d2 l2 r2) = (d1 = d2 \<and> compare l1 l2 \<and> compare r1 r2)"
| "compare lhs rhs = False"

definition operator_eq :: "node \<Rightarrow> node \<Rightarrow> bool" where
  "operator_eq this_root rhs = compare this_root rhs"

definition operator_neq :: "node \<Rightarrow> node \<Rightarrow> bool" where
  "operator_neq this_root rhs = (\<not> operator_eq this_root rhs)"

subsection \<open>Sorted output\<close>

text \<open>The stream is the list of what was written: single characters and \<^verbatim>\<open>NodeData\<close> values.\<close>

datatype 'a written = Chr char | Dat 'a

fun inorderHelper :: "'a store \<Rightarrow> 'a written list \<Rightarrow> node \<Rightarrow> error + 'a written list" where
  "inorderHelper m out Null = Inr out"
| "inorderHelper m out (Node d l r) =
     (case inorderHelper m out l of Inl e \<Rightarrow> Inl e
      | Inr out1 \<Rightarrow>
     (case obj m d of None \<Rightarrow> Inl Undefined
      | Some v \<Rightarrow> inorderHelper m (out1 @ [Chr CHR '' '', Dat v]) r))"

definition operator_out :: "'a store \<Rightarrow> 'a written list \<Rightarrow> node \<Rightarrow> error + 'a written list" where
  "operator_out m out this_root =
     (case inorderHelper m out this_root of Inl e \<Rightarrow> Inl e
      | Inr out1 \<Rightarrow> Inr (out1 @ [Chr CHR 0x0A]))"

subsection \<open>Insertion, retrieval and depth\<close>

text \<open>
  \<^verbatim>\<open>insertItem\<close> gives back \<^verbatim>\<open>success\<close>, the updated \<^verbatim>\<open>treePtr\<close> and the store. When
  \<^verbatim>\<open>new Node\<close> throws, the handler prints \<^verbatim>\<open>*newItem\<close> and the tree stays as it was.

  The new node gets its \<^verbatim>\<open>data\<close> and nothing else: \<^verbatim>\<open>left\<close> and \<^verbatim>\<open>right\<close> are never written.
  Where the memory handed out reads as zero, the two links read as \<^verbatim>\<open>NULL\<close> and the node is
  the leaf that the comment "insert as leaf" announces. Where it does not, the call still
  returns \<^verbatim>\<open>true\<close>, but the tree now holds indeterminate links, which the next insertion
  below that node and every traversal (\<^verbatim>\<open>retrieveItem\<close> of an absent key, \<^verbatim>\<open>depth\<close>,
  \<^verbatim>\<open>inorderHelper\<close>, \<^verbatim>\<open>destroyTree\<close>) read and follow. The model has no tree to give back
  for that and stops with \<open>Inl Unset_Links\<close>.
\<close>

fun insertItem :: "('a::linorder) store \<Rightarrow> node \<Rightarrow> ptr \<Rightarrow> error + (bool \<times> node \<times> 'a store)" where
  "insertItem m Null newItem =
     (case operator_new m of
        (True, m1) \<Rightarrow>
          if stale m (reqs m) then Inl Unset_Links
          else Inr (True, Node newItem Null Null, m1)
      | (False, m1) \<Rightarrow>
          (case obj m1 newItem of None \<Rightarrow> Inl Undefined
           | Some v \<Rightarrow> Inr (False, Null, m1)))"
| "insertItem m (Node d l r) newItem =
     (case obj m newItem of None \<Rightarrow> Inl Undefined
      | Some v \<Rightarrow>
     (case obj m d of None \<Rightarrow> Inl Undefined
      | Some w \<Rightarrow>
          if v = w then Inr (False, Node d l r, m)
          else if v < w then
            (case insertItem m l newItem of Inl e \<Rightarrow> Inl e
             | Inr (success, l', m1) \<Rightarrow> Inr (success, Node d l' r, m1))
          else
            (case insertItem m r newItem of Inl e \<Rightarrow> Inl e
             | Inr (success, r', m1) \<Rightarrow> Inr (success, Node d l r', m1))))"

definition insert_item :: "('a::linorder) store \<Rightarrow> node \<Rightarrow> ptr \<Rightarrow> error + (bool \<times> node \<times> 'a store)" where
  "insert_item m this_root newItem = insertItem m this_root newItem"

text \<open>
  \<^verbatim>\<open>retrieveItem\<close> gives back \<^verbatim>\<open>success\<close> and the value of the reference parameter
  \<^verbatim>\<open>dataItem\<close> after the call.
\<close>

fun retrieveItem :: "('a::linorder) store \<Rightarrow> node \<Rightarrow> 'a \<Rightarrow> ptr \<Rightarrow> error + (bool \<times> ptr)" where
  "retrieveItem m Null searchItem dataItem = Inr (False, dataItem)"
| "retrieveItem m (Node d l r) searchItem dataItem =
     (case obj m d of None \<Rightarrow> Inl Undefined
      | Some w \<Rightarrow>
          if searchItem = w then Inr (True, d)
          else if searchItem < w then retrieveItem m l searchItem dataItem
          else retrieveItem m r searchItem dataItem)"

definition retrieve :: "('a::linorder) store \<Rightarrow> node \<Rightarrow> 'a \<Rightarrow> ptr \<Rightarrow> error + (bool \<times> ptr)" where
  "retrieve m this_root searchItem dataItem = retrieveItem m this_root searchItem dataItem"

fun depth :: "'a store \<Rightarrow> node \<Rightarrow> 'a \<Rightarrow> error + int" where
  "depth m Null dataItem = Inr 0"
| "depth m (Node d l r) dataItem =
     (case obj m d of None \<Rightarrow> Inl Undefined
      | Some w \<Rightarrow>
          if dataItem = w then Inr 1
          else
            (case depth m l dataItem of Inl e \<Rightarrow> Inl e
             | Inr level \<Rightarrow>
            (case (if level = 0 then depth m r dataItem else Inr level) of Inl e \<Rightarrow> Inl e
             | Inr level1 \<Rightarrow> Inr (if level1 > 0 then level1 + 1 else level1))))"

definition getDepth :: "'a store \<Rightarrow> node \<Rightarrow> 'a \<Rightarrow> error + int" where
  "getDepth m this_root searchItem = depth m this_root searchItem"

subsection \<open>Array conversion\<close>

text \<open>
  \<^verbatim>\<open>inorderToArray\<close> gives back the subtree (its data pointers now \<^verbatim>\<open>NULL\<close>), the array
  and the index.
\<close>

fun inorderToArray :: "node \<Rightarrow> ptr list \<Rightarrow> int \<Rightarrow> error + (node \<times> ptr list \<times> int)" where
  "inorderToArray Null target index = Inr (Null, target, index)"
| "inorderToArray (Node d l r) target index =
     (case inorderToArray l target index of Inl e \<Rightarrow> Inl e
      | Inr (l', target1, index1) \<Rightarrow>
     (case write_slot target1 index1 d of Inl e \<Rightarrow> Inl e
      | Inr target2 \<Rightarrow>
     (case inorderToArray r target2 (index1 + 1) of Inl e \<Rightarrow> Inl e
      | Inr (r', target3, index3) \<Rightarrow> Inr (Node None l' r', target3, index3))))"

definition bstreeToArray :: "'a store \<Rightarrow> node \<Rightarrow> ptr list \<Rightarrow> error + ('a store \<times> node \<times> ptr list)" where
  "bstreeToArray m this_root target =
     (case inorderToArray this_root target 10 of Inl e \<Rightarrow> Inl e
      | Inr (this_root1, target1, index) \<Rightarrow>
     (case destroyTree m this_root1 of Inl e \<Rightarrow> Inl e
      | Inr (m1, this_root2) \<Rightarrow> Inr (m1, this_root2, target1)))"

text \<open>C++ \<^verbatim>\<open>/\<close> on \<^verbatim>\<open>int\<close> truncates towards zero.\<close>

definition trunc_div :: "int \<Rightarrow> int \<Rightarrow> int" where
  "trunc_div a b = sgn a * sgn b * (\<bar>a\<bar> div \<bar>b\<bar>)"

text \<open>
  \<^verbatim>\<open>bisectBuild\<close> on the tree, the store and the array. With \<^verbatim>\<open>low = 0\<close> the empty segment
  \<open>(0, -1)\<close> has the midpoint \<open>0\<close>, since \<open>-1 / 2\<close> truncates to \<open>0\<close>, and the test
  \<^verbatim>\<open>low <= mid\<close> lets it through: slot 0 is visited again, now \<^verbatim>\<open>NULL\<close>, and the insertion
  dereferences it. The model follows the source there, which is why the termination order
  has a second component. \<^verbatim>\<open>arrayToBSTree\<close> only calls it with \<^verbatim>\<open>low = 10\<close>, where all indices
  stay between 9 and 100.
\<close>

function bisectBuild ::
  "('a::linorder) store \<times> node \<times> ptr list \<Rightarrow> int \<Rightarrow> int \<Rightarrow> error + ('a store \<times> node \<times> ptr list)" where
  "bisectBuild s low high =
     (case s of (m, this_root, source) \<Rightarrow>
      let mid = trunc_div (low + high) 2 in
      if low \<le> mid then
        (case read_slot source mid of Inl e \<Rightarrow> Inl e
         | Inr p \<Rightarrow>
        (case insert_item m this_root p of Inl e \<Rightarrow> Inl e
         | Inr (success, this_root1, m1) \<Rightarrow>
             if success then
               (case write_slot source mid None of Inl e \<Rightarrow> Inl e
                | Inr source1 \<Rightarrow>
               (case bisectBuild (m1, this_root1, source1) low (mid - 1) of Inl e \<Rightarrow> Inl e
                | Inr s1 \<Rightarrow> bisectBuild s1 (mid + 1) high))
             else Inr (m1, this_root1, source)))
      else Inr s)"
  by pat_completeness auto
termination
proof (relation "measures [\<lambda>(s, low, high). nat (high + 2 - low),
    \<lambda>(s, low, high). case s of (m, this_root, source) \<Rightarrow>
      if this_root = Null \<or> read_slot source 0 \<noteq> Inr None then 1 else 0]", goal_cases)
  case 1
  show ?case by simp
next
  case (2 s low high m x2 this_root source mid p x2a success x2b this_root1 m1 source1)
  have mid: "0 \<le> mid" "mid < int (length source)" "p = source ! nat mid"
    using 2 by (auto simp: read_slot_def split: if_splits)
  have src1: "source1 = source[nat mid := None]"
    using 2 by (auto simp: write_slot_def split: if_splits)
  have ins: "insertItem m this_root p = Inr (True, this_root1, m1)"
    using 2 by (simp add: insert_item_def)
  have new_root: "this_root1 \<noteq> Null"
    using ins by (cases this_root) (auto split: prod.splits option.splits if_splits sum.splits bool.splits)
  have old: "this_root = Null \<or> p \<noteq> None"
    using ins by (cases this_root; cases p) (auto simp: obj_def)
  show ?case
  proof (cases "0 \<le> low + high")
    case True
    then have "mid = (low + high) div 2"
      using 2 by (simp add: trunc_div_def sgn_if)
    with 2 show ?thesis by auto
  next
    case False
    then have m0: "mid = 0" and sum: "low + high = -1"
      using 2 mid(1) by (auto simp: trunc_div_def sgn_if split: if_splits)
    show ?thesis
    proof (cases "low < 0")
      case True
      with m0 sum show ?thesis by auto
    next
      case False
      with 2 m0 have "low = 0" by simp
      with sum have "high = -1" by simp
      with \<open>low = 0\<close> m0 mid src1 new_root old 2 show ?thesis
        by (auto simp: read_slot_def)
    qed
  qed
next
  case (3 s low high m x2 this_root source mid p x2a success x2b this_root1 m1 source1 s1)
  have mid: "0 \<le> mid"
    using 3 by (auto simp: read_slot_def split: if_splits)
  show ?case
  proof (cases "0 \<le> low + high")
    case True
    then have "mid = (low + high) div 2"
      using 3 by (simp add: trunc_div_def sgn_if)
    with 3 show ?thesis by auto
  next
    case False
    then have "mid = 0" "low + high = -1"
      using 3 mid by (auto simp: trunc_div_def sgn_if split: if_splits)
    with 3 show ?thesis by auto
  qed
qed

declare bisectBuild.simps [simp del]

text \<open>The \<^verbatim>\<open>for\<close> loop of \<^verbatim>\<open>arrayToBSTree\<close>, from the value of \<^verbatim>\<open>high\<close> it is entered with.\<close>

function find_last :: "ptr list \<Rightarrow> int \<Rightarrow> error + int" where
  "find_last source high =
     (if high < 100 then
        (case read_slot source high of Inl e \<Rightarrow> Inl e
         | Inr p \<Rightarrow> if p \<noteq> None then find_last source (high + 1) else Inr high)
      else Inr high)"
  by pat_completeness auto
termination
  by (relation "measure (\<lambda>(source, high). nat (100 - high))") auto

declare find_last.simps [simp del]

definition arrayToBSTree ::
  "('a::linorder) store \<Rightarrow> node \<Rightarrow> ptr list \<Rightarrow> error + ('a store \<times> node \<times> ptr list)" where
  "arrayToBSTree m this_root source =
     (let low = 10 in
      case destroyTree m this_root of Inl e \<Rightarrow> Inl e
      | Inr (m1, this_root1) \<Rightarrow>
     (case find_last source low of Inl e \<Rightarrow> Inl e
      | Inr high0 \<Rightarrow>
      let high = high0 - 1 in
     (case read_slot source low of Inl e \<Rightarrow> Inl e
      | Inr p \<Rightarrow>
          if p \<noteq> None then bisectBuild (m1, this_root1, source) low high
          else Inr (m1, this_root1, source))))"

subsection \<open>What a tree holds\<close>

text \<open>Every data pointer of the tree points to a live object.\<close>

fun owned :: "'a store \<Rightarrow> node \<Rightarrow> bool" where
  "owned m Null = True"
| "owned m (Node d l r) = (obj m d \<noteq> None \<and> owned m l \<and> owned m r)"

text \<open>The tree of the element values: the shape of the tree with, at every position, the
  object its data pointer points to.\<close>

fun view :: "'a store \<Rightarrow> node \<Rightarrow> 'a tree" where
  "view m Null = Leaf"
| "view m (Node d l r) = Tree.Node (view m l) (the (obj m d)) (view m r)"

text \<open>The data pointers in inorder, and the number of nodes.\<close>

fun ptrs :: "node \<Rightarrow> ptr list" where
  "ptrs Null = []"
| "ptrs (Node d l r) = ptrs l @ d # ptrs r"

fun count :: "node \<Rightarrow> nat" where
  "count Null = 0"
| "count (Node d l r) = count l + 1 + count r"

subsubsection \<open>Reference notions on trees of values\<close>

text \<open>Insertion of a value into a search tree of values, and the search it follows.\<close>

fun ins :: "'a::linorder \<Rightarrow> 'a tree \<Rightarrow> 'a tree" where
  "ins x Leaf = Tree.Node Leaf x Leaf"
| "ins x (Tree.Node l a r) =
     (if x = a then Tree.Node l a r
      else if x < a then Tree.Node (ins x l) a r
      else Tree.Node l a (ins x r))"

fun isin :: "'a::linorder tree \<Rightarrow> 'a \<Rightarrow> bool" where
  "isin Leaf x = False"
| "isin (Tree.Node l a r) x = (if x = a then True else if x < a then isin l x else isin r x)"

text \<open>A sequence of calls of \<^verbatim>\<open>insert\<close>, whatever each call returns.\<close>

fun inserts :: "('a::linorder) store \<Rightarrow> node \<Rightarrow> ptr list \<Rightarrow> error + (node \<times> 'a store)" where
  "inserts m t [] = Inr (t, m)"
| "inserts m t (p # ps) =
     (case insert_item m t p of Inl e \<Rightarrow> Inl e
      | Inr (success, t1, m1) \<Rightarrow> inserts m1 t1 ps)"

text \<open>The \<^verbatim>\<open>NodeData\<close> values among what was written to a stream.\<close>

fun items :: "'a written list \<Rightarrow> 'a list" where
  "items [] = []"
| "items (Chr c # ws) = items ws"
| "items (Dat v # ws) = v # items ws"

text \<open>The value \<open>x\<close> is stored at nesting level \<open>k\<close>, the root being at level 1.\<close>

fun at_level :: "'a tree \<Rightarrow> 'a \<Rightarrow> nat \<Rightarrow> bool" where
  "at_level Leaf x k = False"
| "at_level (Tree.Node l a r) x k =
     (k = 1 \<and> x = a \<or> 1 < k \<and> (at_level l x (k - 1) \<or> at_level r x (k - 1)))"

text \<open>The tree after \<^verbatim>\<open>inorderToArray\<close>: the same nodes, every data pointer \<^verbatim>\<open>NULL\<close>.\<close>

fun moved_out :: "node \<Rightarrow> node" where
  "moved_out Null = Null"
| "moved_out (Node d l r) = Node None (moved_out l) (moved_out r)"

subsubsection \<open>Histories of a tree\<close>

text \<open>
  The calls a client makes on one tree: \<^verbatim>\<open>insert(p)\<close> and \<^verbatim>\<open>makeEmpty()\<close>. \<open>run\<close> performs
  them in order; \<open>present\<close> is the set of values inserted and not cleared since, read off
  the history alone; \<open>inserted\<close> lists the pointers handed to \<^verbatim>\<open>insert\<close>.
\<close>

datatype op = Insert ptr | MakeEmpty

fun run :: "('a::linorder) store \<Rightarrow> node \<Rightarrow> op list \<Rightarrow> error + (node \<times> 'a store)" where
  "run m t [] = Inr (t, m)"
| "run m t (Insert p # ops) =
     (case insert_item m t p of Inl e \<Rightarrow> Inl e
      | Inr (success, t1, m1) \<Rightarrow> run m1 t1 ops)"
| "run m t (MakeEmpty # ops) =
     (case makeEmpty m t of Inl e \<Rightarrow> Inl e
      | Inr (m1, t1) \<Rightarrow> run m1 t1 ops)"

fun present :: "'a store \<Rightarrow> 'a set \<Rightarrow> op list \<Rightarrow> 'a set" where
  "present m S [] = S"
| "present m S (Insert p # ops) = present m (insert (the (obj m p)) S) ops"
| "present m S (MakeEmpty # ops) = present m {} ops"

fun inserted :: "op list \<Rightarrow> ptr list" where
  "inserted [] = []"
| "inserted (Insert p # ops) = p # inserted ops"
| "inserted (MakeEmpty # ops) = inserted ops"

subsubsection \<open>Bisection\<close>

text \<open>
  The order in which \<^verbatim>\<open>bisectBuild\<close> visits a segment: the middle element, then the left
  part, then the right part.
\<close>

function bisect :: "'a list \<Rightarrow> 'a list" where
  "bisect xs =
     (if xs = [] then []
      else let k = (length xs - 1) div 2
           in xs ! k # bisect (take k xs) @ bisect (drop (Suc k) xs))"
  by pat_completeness auto
termination
proof (relation "measure length", goal_cases)
  case 1
  show ?case by simp
next
  case (2 xs k)
  then have "k < length xs" by (cases xs) auto
  then show ?case by simp
next
  case (3 xs k)
  then have "k < length xs" by (cases xs) auto
  then show ?case by simp
qed

declare bisect.simps [simp del]

text \<open>The array with the \<open>n\<close> slots from index \<open>lo\<close> on set to \<^verbatim>\<open>NULL\<close>.\<close>

definition blank :: "nat \<Rightarrow> nat \<Rightarrow> ptr list \<Rightarrow> ptr list" where
  "blank lo n xs = take lo xs @ replicate n None @ drop (lo + n) xs"

text \<open>
  The run of non-empty slots that \<^verbatim>\<open>arrayToBSTree\<close> reads: from index 10 up to the first
  empty slot or index 100.
\<close>

definition run_slots :: "ptr list \<Rightarrow> ptr list" where
  "run_slots source = takeWhile (\<lambda>p. p \<noteq> None) (take 90 (drop 10 source))"

text \<open>
  A tree of \<open>n\<close> nodes holding the addresses \<open>a, a + 1, \<dots>\<close>, each node the right child of the
  one before: the tree that inserting ascending elements gives.
\<close>

fun chain :: "addr \<Rightarrow> nat \<Rightarrow> node" where
  "chain a 0 = Null"
| "chain a (Suc n) = Node (Some a) Null (chain (Suc a) n)"

section \<open>The equality operation\<close>

lemma compare_eq: "compare t1 t2 = (t1 = t2)"
  by (induction t1 t2 rule: compare.induct) auto

text \<open>
  C9: the equality operation is reflexive and symmetric, any two empty trees are equal, and
  two trees with different numbers of elements are never equal.
\<close>

theorem operator_eq_refl_sym_size:
  "operator_eq t t
   \<and> operator_eq t1 t2 = operator_eq t2 t1
   \<and> (isEmpty t1 \<and> isEmpty t2 \<longrightarrow> operator_eq t1 t2)
   \<and> (count t1 \<noteq> count t2 \<longrightarrow> \<not> operator_eq t1 t2)"
  by (auto simp: operator_eq_def compare_eq isEmpty_def)

theorem operator_eq_refl_sym_size_witness:
  "isEmpty Null \<and> operator_eq Null Null
   \<and> count (Node (Some 0) Null Null) \<noteq> count Null
   \<and> \<not> operator_eq (Node (Some 0) Null Null) Null"
proof -
  have e: "isEmpty Null \<and> isEmpty Null"
    by (simp add: isEmpty_def)
  have c: "count (Node (Some 0) Null Null) \<noteq> count Null"
    by simp
  from operator_eq_refl_sym_size [of Null Null Null] e
  have "operator_eq Null Null" by blast
  moreover from operator_eq_refl_sym_size [of Null "Node (Some 0) Null Null" Null] c
  have "\<not> operator_eq (Node (Some 0) Null Null) Null" by blast
  ultimately show ?thesis using e c by blast
qed

text \<open>
  C1: the equality operation should return true exactly when the two trees have the same
  shape and the same element value at every position. Two one-node trees whose elements
  are equal values held in different objects have the same tree of values, and the
  operation returns false.
\<close>

theorem operator_eq_equal_values_differ:
  "view \<lparr>cells = [Some (5::nat), Some 5], oom = (\<lambda>i. False), stale = (\<lambda>i. False), reqs = 0\<rparr> (Node (Some 0) Null Null)
     = view \<lparr>cells = [Some (5::nat), Some 5], oom = (\<lambda>i. False), stale = (\<lambda>i. False), reqs = 0\<rparr> (Node (Some 1) Null Null)
   \<and> operator_eq (Node (Some 0) Null Null) (Node (Some 1) Null Null) = False"
  by (simp add: operator_eq_def obj_def)

text \<open>
  C2: the copy of a tree should be reported equal to the tree. The copy of a one-node tree
  holds a new object with the same value, and the equality operation returns false.
\<close>

theorem copy_not_operator_eq:
  "copy_constructor \<lparr>cells = [Some (5::nat)], oom = (\<lambda>i. False), stale = (\<lambda>i. False), reqs = 0\<rparr> (Node (Some 0) Null Null)
     = Inr (\<lparr>cells = [Some 5, Some 5], oom = (\<lambda>i. False), stale = (\<lambda>i. False), reqs = 2\<rparr>, Node (Some 1) Null Null)
   \<and> operator_eq (Node (Some 1) Null Null) (Node (Some 0) Null Null) = False"
  by (simp add: copy_constructor_def operator_new_def construct_def obj_def operator_eq_def)

section \<open>Insertion, output, depth and export\<close>

lemma obj_cells: "cells m' = cells m \<Longrightarrow> obj m' p = obj m p"
  by (simp add: obj_def split: option.splits)

lemma obj_reqs [simp]: "obj (m\<lparr>reqs := n\<rparr>) p = obj m p"
  by (rule obj_cells) simp

lemma owned_cells: "cells m' = cells m \<Longrightarrow> owned m' t = owned m t"
  by (induction t) (auto simp: obj_cells [of m' m])

lemma view_cells: "cells m' = cells m \<Longrightarrow> view m' t = view m t"
  by (induction t) (auto simp: obj_cells [of m' m])

lemma owned_reqs [simp]: "owned (m\<lparr>reqs := n\<rparr>) t = owned m t"
  by (rule owned_cells) simp

lemma view_reqs [simp]: "view (m\<lparr>reqs := n\<rparr>) t = view m t"
  by (rule view_cells) simp

lemma isin_set: "bst t \<Longrightarrow> isin t x = (x \<in> set_tree t)"
  by (induction t) auto

lemma set_tree_ins: "set_tree (ins x t) = insert x (set_tree t)"
  by (induction t) auto

lemma bst_ins: "bst t \<Longrightarrow> bst (ins x t)"
  by (induction t) (auto simp: set_tree_ins)

lemma insertItem_found:
  "owned m t \<Longrightarrow> obj m p = Some v \<Longrightarrow> isin (view m t) v \<Longrightarrow> insertItem m t p = Inr (False, t, m)"
  by (induction t) (auto split: if_splits)

lemma insertItem_refused:
  "owned m t \<Longrightarrow> obj m p = Some v \<Longrightarrow> \<not> isin (view m t) v \<Longrightarrow> oom m (reqs m) \<Longrightarrow>
   insertItem m t p = Inr (False, t, m\<lparr>reqs := Suc (reqs m)\<rparr>)"
  by (induction t) (auto simp: operator_new_def split: if_splits)

lemma insertItem_unset:
  "owned m t \<Longrightarrow> obj m p = Some v \<Longrightarrow> \<not> isin (view m t) v \<Longrightarrow> \<not> oom m (reqs m) \<Longrightarrow>
   stale m (reqs m) \<Longrightarrow> insertItem m t p = Inl Unset_Links"
  by (induction t) (auto simp: operator_new_def split: if_splits)

lemma insertItem_new:
  "owned m t \<Longrightarrow> obj m p = Some v \<Longrightarrow> \<not> isin (view m t) v \<Longrightarrow> \<not> oom m (reqs m) \<Longrightarrow>
   \<not> stale m (reqs m) \<Longrightarrow>
   \<exists>t'. insertItem m t p = Inr (True, t', m\<lparr>reqs := Suc (reqs m)\<rparr>)
      \<and> owned m t' \<and> view m t' = ins v (view m t) \<and> set (ptrs t') = insert p (set (ptrs t))
      \<and> count t' = Suc (count t)"
  by (induction t) (auto simp: operator_new_def split: if_splits)

lemma insertItem_any:
  assumes "owned m t" "obj m p = Some v" "\<not> stale m (reqs m)"
  shows "\<exists>b t' m'. insertItem m t p = Inr (b, t', m') \<and> cells m' = cells m \<and> stale m' = stale m
           \<and> owned m' t' \<and> (view m' t' = ins v (view m t) \<or> view m' t' = view m t)"
proof (cases "isin (view m t) v")
  case True
  with assms have "insertItem m t p = Inr (False, t, m)" by (simp add: insertItem_found)
  with assms show ?thesis by auto
next
  case False
  show ?thesis
  proof (cases "oom m (reqs m)")
    case True
    with False assms have "insertItem m t p = Inr (False, t, m\<lparr>reqs := Suc (reqs m)\<rparr>)"
      by (simp add: insertItem_refused)
    with assms show ?thesis by auto
  next
    case no: False
    from insertItem_new [OF assms(1,2) False no assms(3)] show ?thesis by auto
  qed
qed

text \<open>
  C5: for a tree that owns its elements and keeps the search order, inserting an element
  equal to one already present returns failure and leaves the tree (and the store) as
  they were.
\<close>

theorem insert_present_rejected:
  assumes "owned m t" and "bst (view m t)" and "obj m p = Some v" and "v \<in> set_tree (view m t)"
  shows "insert_item m t p = Inr (False, t, m)"
  using assms by (simp add: insert_item_def insertItem_found isin_set)

theorem insert_present_rejected_witness:
  "insert_item \<lparr>cells = [Some (5::nat), Some 5], oom = (\<lambda>i. False), stale = (\<lambda>i. False), reqs = 0\<rparr>
     (Node (Some 0) Null Null) (Some 1)
     = Inr (False, Node (Some 0) Null Null,
            \<lparr>cells = [Some (5::nat), Some 5], oom = (\<lambda>i. False), stale = (\<lambda>i. False), reqs = 0\<rparr>)"
proof -
  let ?m = "\<lparr>cells = [Some (5::nat), Some 5], oom = (\<lambda>i. False), stale = (\<lambda>i. False), reqs = 0\<rparr>"
  let ?t = "Node (Some 0) Null Null"
  have a: "owned ?m ?t" by (simp add: obj_def)
  have b: "bst (view ?m ?t)" by (simp add: obj_def)
  have c: "obj ?m (Some 1) = Some 5" by (simp add: obj_def)
  have d: "5 \<in> set_tree (view ?m ?t)" by (simp add: obj_def)
  from insert_present_rejected [OF a b c d] show ?thesis .
qed

lemma inserts_invariant:
  "owned m t \<Longrightarrow> bst (view m t) \<Longrightarrow> \<forall>p\<in>set ps. obj m p \<noteq> None \<Longrightarrow> \<forall>i. \<not> stale m i \<Longrightarrow>
   \<exists>t' m'. inserts m t ps = Inr (t', m') \<and> owned m' t' \<and> bst (view m' t')"
proof (induction ps arbitrary: m t)
  case Nil
  then show ?case by simp
next
  case (Cons p ps)
  from Cons.prems obtain v where v: "obj m p = Some v" by auto
  from Cons.prems(4) have "\<not> stale m (reqs m)" by simp
  from insertItem_any [OF Cons.prems(1) v this] obtain b t1 m1 where
    i: "insertItem m t p = Inr (b, t1, m1)" and c: "cells m1 = cells m" and o: "owned m1 t1"
    and w: "view m1 t1 = ins v (view m t) \<or> view m1 t1 = view m t"
    and st: "stale m1 = stale m"
    by blast
  from st Cons.prems(4) have z: "\<forall>i. \<not> stale m1 i" by simp
  from w Cons.prems(2) have b: "bst (view m1 t1)" by (auto simp: bst_ins)
  from Cons.prems(3) c have l: "\<forall>p\<in>set ps. obj m1 p \<noteq> None" by (simp add: obj_cells [of m1 m])
  from Cons.IH [OF o b l z] i show ?case by (simp add: insert_item_def)
qed

lemma inorderHelper_owned:
  "owned m t \<Longrightarrow>
   \<exists>out'. inorderHelper m out t = Inr out' \<and> items out' = items out @ inorder (view m t)"
proof (induction t arbitrary: out)
  case Null
  then show ?case by simp
next
  case (Node d l r)
  from Node.prems obtain v where v: "obj m d = Some v" by auto
  from Node.prems Node.IH(1) [of out] obtain out1 where
    l: "inorderHelper m out l = Inr out1" "items out1 = items out @ inorder (view m l)" by auto
  have it: "items (out1 @ [Chr CHR '' '', Dat v]) = items out1 @ [v]"
    by (induction out1 rule: items.induct) auto
  from Node.prems Node.IH(2) [of "out1 @ [Chr CHR '' '', Dat v]"] obtain out2 where
    r: "inorderHelper m (out1 @ [Chr CHR '' '', Dat v]) r = Inr out2"
       "items out2 = items (out1 @ [Chr CHR '' '', Dat v]) @ inorder (view m r)" by auto
  from v l r it show ?case by simp
qed

lemma items_append: "items (xs @ ys) = items xs @ items ys"
  by (induction xs rule: items.induct) auto

text \<open>
  Where the links of every new node read as \<^verbatim>\<open>NULL\<close>, any sequence of insertions of live
  elements into the empty tree keeps the search order, and the sorted output writes the
  elements in strictly ascending order.
\<close>

lemma inserts_inorder_ascending_leaves:
  assumes "\<forall>p\<in>set ps. obj m p \<noteq> None" and "\<forall>i. \<not> stale m i"
  shows "\<exists>t m' out. inserts m Null ps = Inr (t, m') \<and> bst (view m' t)
           \<and> operator_out m' [] t = Inr out \<and> items out = inorder (view m' t)
           \<and> sorted_wrt (<) (items out)"
proof -
  from inserts_invariant [of m Null ps] assms obtain t m' where
    i: "inserts m Null ps = Inr (t, m')" and o: "owned m' t" and b: "bst (view m' t)"
    by auto
  from inorderHelper_owned [OF o, of "[]"] obtain out1 where
    h: "inorderHelper m' [] t = Inr out1" "items out1 = inorder (view m' t)" by auto
  from h have "operator_out m' [] t = Inr (out1 @ [Chr CHR 0x0A])"
    by (simp add: operator_out_def)
  moreover have "items (out1 @ [Chr CHR 0x0A]) = inorder (view m' t)"
    using h by (simp add: items_append)
  moreover have "sorted_wrt (<) (inorder (view m' t))"
    using b by (simp add: bst_iff_sorted_wrt_less)
  ultimately show ?thesis using i b by simp
qed

text \<open>
  C4: after every sequence of insertions the inorder traversal should yield the elements in
  strictly ascending order. \<^verbatim>\<open>insertItem\<close> never assigns the links of the node it creates.
  With the elements 5, 3, 8 inserted into the empty tree and memory that does not read as
  zero, the first insertion already leaves a root with indeterminate links, which the
  insertion of 3 and the traversal follow: there is no tree to traverse.
\<close>

theorem inserts_leave_links_unset:
  "insert_item \<lparr>cells = [Some (5::nat), Some 3, Some 8], oom = (\<lambda>i. False), stale = (\<lambda>i. True), reqs = 0\<rparr>
     Null (Some 0) = Inl Unset_Links
   \<and> inserts \<lparr>cells = [Some (5::nat), Some 3, Some 8], oom = (\<lambda>i. False), stale = (\<lambda>i. True), reqs = 0\<rparr>
     Null [Some 0, Some 1, Some 2] = Inl Unset_Links"
  by (simp add: insert_item_def operator_new_def)

lemma at_level_set: "at_level t x k \<Longrightarrow> x \<in> set_tree t \<and> 0 < k"
  by (induction t arbitrary: k) auto

lemma depth_absent: "owned m t \<Longrightarrow> x \<notin> set_tree (view m t) \<Longrightarrow> depth m t x = Inr 0"
  by (induction t) auto

lemma depth_level:
  "owned m t \<Longrightarrow> bst (view m t) \<Longrightarrow> at_level (view m t) x k \<Longrightarrow> depth m t x = Inr (int k)"
proof (induction t arbitrary: k)
  case Null
  then show ?case by simp
next
  case (Node d l r)
  from Node.prems obtain w where w: "obj m d = Some w" by auto
  show ?case
  proof (cases "x = w")
    case True
    with Node.prems w have "k = 1"
      by (auto dest!: at_level_set)
    with True w show ?thesis by simp
  next
    case False
    with Node.prems w have k: "1 < k"
      and sub: "at_level (view m l) x (k - 1) \<or> at_level (view m r) x (k - 1)"
      by auto
    from sub show ?thesis
    proof
      assume a: "at_level (view m l) x (k - 1)"
      with Node.IH(1) [of "k - 1"] Node.prems have "depth m l x = Inr (int (k - 1))" by simp
      with w False k show ?thesis by simp
    next
      assume a: "at_level (view m r) x (k - 1)"
      then have "x \<in> set_tree (view m r)" by (simp add: at_level_set)
      with Node.prems w have "x \<notin> set_tree (view m l)" by (fastforce dest: less_asym)
      with Node.prems have l0: "depth m l x = Inr 0" by (simp add: depth_absent)
      from a Node.IH(2) [of "k - 1"] Node.prems have "depth m r x = Inr (int (k - 1))" by simp
      with l0 w False k show ?thesis by simp
    qed
  qed
qed

text \<open>
  C8: on a tree that keeps the search order, \<^verbatim>\<open>getDepth\<close> returns 1 for the element at the
  root, 0 for an element that is absent, and \<open>k\<close> for an element stored at nesting level
  \<open>k\<close>.
\<close>

theorem getDepth_level:
  assumes "owned m t" and "bst (view m t)"
  shows "(\<forall>d l r. t = Node d l r \<longrightarrow> getDepth m t (the (obj m d)) = Inr 1)
       \<and> (x \<notin> set_tree (view m t) \<longrightarrow> getDepth m t x = Inr 0)
       \<and> (at_level (view m t) x k \<longrightarrow> getDepth m t x = Inr (int k))"
  using assms by (auto simp: getDepth_def depth_absent depth_level)

theorem getDepth_level_witness:
  "getDepth \<lparr>cells = [Some (5::nat), Some 3], oom = (\<lambda>i. False), stale = (\<lambda>i. False), reqs = 0\<rparr>
     (Node (Some 0) (Node (Some 1) Null Null) Null) 5 = Inr 1
   \<and> getDepth \<lparr>cells = [Some (5::nat), Some 3], oom = (\<lambda>i. False), stale = (\<lambda>i. False), reqs = 0\<rparr>
     (Node (Some 0) (Node (Some 1) Null Null) Null) 9 = Inr 0
   \<and> getDepth \<lparr>cells = [Some (5::nat), Some 3], oom = (\<lambda>i. False), stale = (\<lambda>i. False), reqs = 0\<rparr>
     (Node (Some 0) (Node (Some 1) Null Null) Null) 3 = Inr 2"
proof -
  let ?m = "\<lparr>cells = [Some (5::nat), Some 3], oom = (\<lambda>i. False), stale = (\<lambda>i. False), reqs = 0\<rparr>"
  let ?t = "Node (Some 0) (Node (Some 1) Null Null) Null"
  have a: "owned ?m ?t" by (simp add: obj_def)
  have b: "bst (view ?m ?t)" by (simp add: obj_def)
  have r: "the (obj ?m (Some 0)) = 5" by (simp add: obj_def)
  have n: "9 \<notin> set_tree (view ?m ?t)" by (simp add: obj_def)
  have l: "at_level (view ?m ?t) 3 2" by (simp add: obj_def)
  from getDepth_level [OF a b, of 9 2] n have "getDepth ?m ?t 9 = Inr 0" by blast
  moreover from getDepth_level [OF a b, of 3 2] l have "getDepth ?m ?t 3 = Inr 2" by simp
  moreover from getDepth_level [OF a b, of 3 2] r have "getDepth ?m ?t 5 = Inr 1" by simp
  ultimately show ?thesis by blast
qed

lemma length_ptrs: "length (ptrs t) = count t"
  by (induction t) auto

lemma update_middle:
  "length a = i \<Longrightarrow> i + n < length xs \<Longrightarrow> length ys = n \<Longrightarrow>
   (a @ ys @ drop (i + n) xs)[i + n := d] = a @ (ys @ [d]) @ drop (i + n + 1) xs"
proof -
  assume a: "length a = i" and b: "i + n < length xs" and c: "length ys = n"
  from b have "drop (i + n) xs = xs ! (i + n) # drop (Suc (i + n)) xs"
    by (simp add: Cons_nth_drop_Suc)
  with a c show ?thesis
    by (simp add: list_update_append)
qed

lemma inorderToArray_moves:
  "0 \<le> i \<Longrightarrow> nat i + count t \<le> length target \<Longrightarrow>
   inorderToArray t target i =
     Inr (moved_out t, take (nat i) target @ ptrs t @ drop (nat i + count t) target, i + int (count t))"
proof (induction t arbitrary: target i)
  case Null
  then show ?case by simp
next
  case (Node d l r)
  let ?i = "nat i" and ?cl = "count l" and ?cr = "count r"
  let ?t1 = "take ?i target @ ptrs l @ drop (?i + ?cl) target"
  let ?t2 = "take ?i target @ (ptrs l @ [d]) @ drop (?i + ?cl + 1) target"
  from Node.prems have bound: "?i + ?cl + 1 + ?cr \<le> length target" by simp
  from Node.prems Node.IH(1) [of i target]
  have l: "inorderToArray l target i = Inr (moved_out l, ?t1, i + int ?cl)" by simp
  have len1: "length ?t1 = length target" using bound by (simp add: length_ptrs)
  have "?t1[?i + ?cl := d] = ?t2"
    using bound by (intro update_middle) (simp_all add: length_ptrs)
  with len1 bound Node.prems have w: "write_slot ?t1 (i + int ?cl) d = Inr ?t2"
    by (simp add: write_slot_def nat_add_distrib)
  have len2: "length ?t2 = length target" using bound by (simp add: length_ptrs)
  have idx: "nat (i + int ?cl + 1) = ?i + ?cl + 1" using Node.prems by simp
  from Node.IH(2) [of "i + int ?cl + 1" ?t2] Node.prems bound len2 idx
  have r: "inorderToArray r ?t2 (i + int ?cl + 1) =
      Inr (moved_out r, take (?i + ?cl + 1) ?t2 @ ptrs r @ drop (?i + ?cl + 1 + ?cr) ?t2,
           i + int ?cl + 1 + int ?cr)"
    by simp
  have tk: "take (?i + ?cl + 1) ?t2 = take ?i target @ ptrs l @ [d]"
    using bound by (simp add: length_ptrs)
  have dr: "drop (?i + ?cl + 1 + ?cr) ?t2 = drop (?i + ?cl + 1 + ?cr) target"
    using bound by (simp add: length_ptrs add.commute)
  from l w r tk dr show ?case by (simp add: add.assoc)
qed

lemma destroyTree_moved_out: "destroyTree m (moved_out t) = Inr (m, Null)"
  by (induction t arbitrary: m) auto

lemma ptrs_values: "owned m t \<Longrightarrow> map (\<lambda>p. the (obj m p)) (ptrs t) = inorder (view m t)"
  by (induction t) auto

lemma bstreeToArray_result:
  assumes "\<forall>p\<in>set target. p = None" and "10 + count t \<le> length target"
  shows "bstreeToArray m t target =
      Inr (m, Null, replicate 10 None @ ptrs t @ replicate (length target - 10 - count t) None)"
proof -
  from assms(1) have target: "target = replicate (length target) None"
    by (simp add: replicate_length_same)
  have "take 10 target = replicate 10 None"
    using assms(2) by (subst target) simp
  moreover have "drop (10 + count t) target = replicate (length target - 10 - count t) None"
    by (subst target) simp
  moreover from assms(2) inorderToArray_moves [of 10 t target]
  have "inorderToArray t target 10 =
      Inr (moved_out t, take 10 target @ ptrs t @ drop (10 + count t) target, 10 + int (count t))"
    by simp
  ultimately show ?thesis
    by (simp add: bstreeToArray_def destroyTree_moved_out)
qed

text \<open>
  For a tree of \<open>n\<close> elements and an all-empty buffer with at least \<open>10 + n\<close> slots,
  \<^verbatim>\<open>bstreeToArray\<close> leaves the tree empty and the buffer holding the data pointers at the
  slots \<open>10, \<dots>, 10 + n - 1\<close> in inorder, which is strictly ascending in the elements; no
  object is deleted: the store is unchanged and the call is defined.
\<close>

lemma bstreeToArray_from_slot_10:
  assumes "owned m t" and "bst (view m t)"
    and "\<forall>p\<in>set target. p = None" and "10 + count t \<le> length target"
  shows "\<exists>this_root' target'. bstreeToArray m t target = Inr (m, this_root', target')
           \<and> isEmpty this_root'
           \<and> target' = replicate 10 None @ ptrs t @ replicate (length target - 10 - count t) None
           \<and> (\<forall>p\<in>set (ptrs t). obj m p \<noteq> None)
           \<and> map (\<lambda>p. the (obj m p)) (ptrs t) = inorder (view m t)
           \<and> sorted_wrt (<) (inorder (view m t))"
proof -
  have "\<forall>p\<in>set (ptrs t). obj m p \<noteq> None"
    using assms(1) by (induction t) auto
  with bstreeToArray_result [OF assms(3,4), of m] show ?thesis
    using assms(1,2) by (simp add: isEmpty_def ptrs_values bst_iff_sorted_wrt_less)
qed

text \<open>With fewer than \<open>10 + n\<close> slots the export writes behind the end of the array.\<close>

lemma inorderToArray_overflow:
  "0 \<le> i \<Longrightarrow> nat i \<le> length target \<Longrightarrow> length target < nat i + count t \<Longrightarrow>
   inorderToArray t target i = Inl Undefined"
proof (induction t arbitrary: target i)
  case Null
  then show ?case by simp
next
  case (Node d l r)
  show ?case
  proof (cases "length target < nat i + count l")
    case True
    with Node.IH(1) [of i target] Node.prems show ?thesis by simp
  next
    case False
    let ?t1 = "take (nat i) target @ ptrs l @ drop (nat i + count l) target"
    from False have fit: "nat i + count l \<le> length target" by simp
    with Node.prems inorderToArray_moves [of i l target]
    have l: "inorderToArray l target i = Inr (moved_out l, ?t1, i + int (count l))" by simp
    have len1: "length ?t1 = length target" using fit by (simp add: length_ptrs)
    show ?thesis
    proof (cases "nat i + count l < length target")
      case inside: True
      define t2 where "t2 = ?t1[nat (i + int (count l)) := d]"
      from inside Node.prems(1) have "0 \<le> i + int (count l) \<and> i + int (count l) < int (length target)"
        by linarith
      then have w: "write_slot ?t1 (i + int (count l)) d = Inr t2"
        unfolding write_slot_def t2_def len1 by (rule if_P)
      have len2: "length t2 = length target"
        unfolding t2_def length_list_update by (rule len1)
      from Node.prems len2 have "length t2 < nat (i + int (count l) + 1) + count r"
        by (simp add: nat_add_distrib)
      moreover from inside Node.prems len2 have "nat (i + int (count l) + 1) \<le> length t2"
        by (simp add: nat_add_distrib)
      ultimately have "inorderToArray r t2 (i + int (count l) + 1) = Inl Undefined"
        using Node.IH(2) [of "i + int (count l) + 1" t2] Node.prems by simp
      with l w show ?thesis by simp
    next
      case False
      with Node.prems(1) have "\<not> (0 \<le> i + int (count l) \<and> i + int (count l) < int (length target))"
        by linarith
      then have "write_slot ?t1 (i + int (count l)) d = Inl Undefined"
        unfolding write_slot_def len1 by (rule if_not_P)
      with l show ?thesis by simp
    qed
  qed
qed

lemma count_chain: "count (chain a n) = n"
  by (induction n arbitrary: a) auto

lemma ptrs_chain: "ptrs (chain a n) = map Some [a..<a + n]"
  by (induction n arbitrary: a) (auto simp: upt_rec)

lemma owned_ptrs: "owned m t = (\<forall>p\<in>set (ptrs t). obj m p \<noteq> None)"
  by (induction t) auto

text \<open>
  C6: for every tree within the capacity of an all-empty buffer, \<^verbatim>\<open>bstreeToArray\<close> should
  leave the buffer holding all elements. The export starts at index 10, which the source
  itself calls a workaround for a bug. A tree of 91 elements (here the values 0 to 90, each
  the right child of the one before) fits the 100 empty slots that the function documents
  as its precondition, and the 91st element is written to \<^verbatim>\<open>target[100]\<close>, behind the end of
  the array.
\<close>

theorem bstreeToArray_writes_beyond_100:
  "count (chain 0 91) = 91
   \<and> owned \<lparr>cells = map Some [0..<91], oom = (\<lambda>i. False), stale = (\<lambda>i. False), reqs = 0\<rparr> (chain 0 91)
   \<and> bst (view \<lparr>cells = map Some [0..<91], oom = (\<lambda>i. False), stale = (\<lambda>i. False), reqs = 0\<rparr> (chain 0 91))
   \<and> bstreeToArray \<lparr>cells = map Some [0..<91], oom = (\<lambda>i. False), stale = (\<lambda>i. False), reqs = 0\<rparr>
       (chain 0 91) (replicate 100 None) = Inl Undefined"
proof -
  let ?m = "\<lparr>cells = map Some [0..<91], oom = (\<lambda>i. False), stale = (\<lambda>i. False), reqs = 0\<rparr>"
  have c: "count (chain 0 91) = 91" by (rule count_chain)
  have ob: "obj ?m (Some a) = Some a" if "a < 91" for a
    using that by (simp add: obj_def)
  have o: "owned ?m (chain 0 91)"
    unfolding owned_ptrs ptrs_chain using ob by auto
  have "map (\<lambda>a. the (obj ?m (Some a))) [0..<91] = [0..<91]"
    by (rule map_idI) (simp add: ob)
  then have "map (\<lambda>p. the (obj ?m p)) (ptrs (chain 0 91)) = [0..<91]"
    unfolding ptrs_chain by (simp add: o_def)
  with ptrs_values [OF o] have "inorder (view ?m (chain 0 91)) = [0..<91]" by simp
  then have b: "bst (view ?m (chain 0 91))" by (simp add: bst_iff_sorted_wrt_less)
  have "inorderToArray (chain 0 91) (replicate 100 None) 10 = Inl Undefined"
    by (rule inorderToArray_overflow) (simp_all add: count_chain)
  then have "bstreeToArray ?m (chain 0 91) (replicate 100 None) = Inl Undefined"
    by (simp add: bstreeToArray_def)
  with c o b show ?thesis by blast
qed

section \<open>Clearing, histories and retrieval\<close>

lemma owned_obj: "\<forall>p\<in>set (ptrs t). obj m' p = obj m p \<Longrightarrow> owned m' t = owned m t"
  by (induction t) auto

lemma view_obj: "\<forall>p\<in>set (ptrs t). obj m' p = obj m p \<Longrightarrow> view m' t = view m t"
  by (induction t) auto

lemma obj_delete:
  "obj m (Some a) \<noteq> None \<Longrightarrow>
   \<exists>m'. delete_NodeData m a = Inr m' \<and> length (cells m') = length (cells m)
     \<and> oom m' = oom m \<and> stale m' = stale m \<and> reqs m' = reqs m
     \<and> (\<forall>p. obj m' p = (if p = Some a then None else obj m p))"
  by (auto simp: delete_NodeData_def obj_def split: option.splits if_splits)

lemma destroyTree_owned:
  "owned m t \<Longrightarrow> distinct (ptrs t) \<Longrightarrow>
   \<exists>m'. destroyTree m t = Inr (m', Null) \<and> length (cells m') = length (cells m)
     \<and> oom m' = oom m \<and> stale m' = stale m \<and> reqs m' = reqs m
     \<and> (\<forall>p. obj m' p = (if p \<in> set (ptrs t) then None else obj m p))"
proof (induction t arbitrary: m)
  case Null
  then show ?case by simp
next
  case (Node d l r)
  from Node.prems obtain a where d: "d = Some a" by (cases d) (auto simp: obj_def)
  from Node.IH(1) [of m] Node.prems obtain m1 where
    l: "destroyTree m l = Inr (m1, Null)" "length (cells m1) = length (cells m)"
       "oom m1 = oom m" "reqs m1 = reqs m"
       "\<forall>p. obj m1 p = (if p \<in> set (ptrs l) then None else obj m p)"
       "stale m1 = stale m"
    by auto
  from l(5) Node.prems have "\<forall>p\<in>set (ptrs r). obj m1 p = obj m p" by auto
  then have "owned m1 r = owned m r" by (rule owned_obj)
  with Node.IH(2) [of m1] Node.prems obtain m2 where
    r: "destroyTree m1 r = Inr (m2, Null)" "length (cells m2) = length (cells m1)"
       "oom m2 = oom m1" "reqs m2 = reqs m1"
       "\<forall>p. obj m2 p = (if p \<in> set (ptrs r) then None else obj m1 p)"
       "stale m2 = stale m1"
    by auto
  from l(5) r(5) Node.prems d have "obj m2 (Some a) \<noteq> None" by auto
  from obj_delete [OF this] obtain m3 where
    x: "delete_NodeData m2 a = Inr m3" "length (cells m3) = length (cells m2)"
       "oom m3 = oom m2" "reqs m3 = reqs m2"
       "\<forall>p. obj m3 p = (if p = Some a then None else obj m2 p)"
       "stale m3 = stale m2"
    by auto
  from l r x d show ?case by auto
qed

lemma owned_distinct: "owned m t \<Longrightarrow> bst (view m t) \<Longrightarrow> distinct (ptrs t)"
proof -
  assume o: "owned m t" and b: "bst (view m t)"
  then have "sorted_wrt (<) (map (\<lambda>p. the (obj m p)) (ptrs t))"
    by (simp add: ptrs_values bst_iff_sorted_wrt_less)
  then have "distinct (map (\<lambda>p. the (obj m p)) (ptrs t))"
    by (simp add: strict_sorted_iff)
  then show ?thesis by (simp add: distinct_map)
qed


lemma present_obj:
  "\<forall>p\<in>set (inserted ops). obj m' p = obj m p \<Longrightarrow> present m' S ops = present m S ops"
  by (induction ops arbitrary: S rule: inserted.induct) auto

lemma run_invariant:
  assumes "owned m t" and "bst (view m t)" and "\<forall>i. \<not> oom m i"
    and "distinct (inserted ops)"
    and "\<forall>p\<in>set (inserted ops). obj m p \<noteq> None \<and> p \<notin> set (ptrs t)"
    and "\<forall>i. \<not> stale m i"
  shows "\<exists>t' m'. run m t ops = Inr (t', m') \<and> owned m' t' \<and> bst (view m' t')
           \<and> set_tree (view m' t') = present m (set_tree (view m t)) ops"
  using assms
proof (induction ops arbitrary: m t rule: inserted.induct)
  case 1
  then show ?case by simp
next
  case (2 p ops)
  from "2.prems" obtain v where v: "obj m p = Some v" by auto
  show ?case
  proof (cases "isin (view m t) v")
    case True
    with "2.prems" v have i: "insertItem m t p = Inr (False, t, m)"
      by (simp add: insertItem_found)
    from True "2.prems" have "insert v (set_tree (view m t)) = set_tree (view m t)"
      by (auto simp: isin_set)
    with "2.IH" [of m t] "2.prems" i v show ?thesis
      by (simp add: insert_item_def)
  next
    case False
    let ?m1 = "m\<lparr>reqs := Suc (reqs m)\<rparr>"
    from "2.prems" have "\<not> oom m (reqs m)" and "\<not> stale m (reqs m)" by simp_all
    from insertItem_new [OF "2.prems"(1) v False this] obtain t1 where
      i: "insertItem m t p = Inr (True, t1, ?m1)" and o: "owned m t1"
      and w: "view m t1 = ins v (view m t)" and ps: "set (ptrs t1) = insert p (set (ptrs t))"
      by blast
    have o1: "owned ?m1 t1" using o by simp
    have b1: "bst (view ?m1 t1)" using w "2.prems"(2) by (simp add: bst_ins)
    have n1: "\<forall>i. \<not> oom ?m1 i" using "2.prems"(3) by simp
    have z1: "\<forall>i. \<not> stale ?m1 i" using "2.prems"(6) by simp
    have d1: "distinct (inserted ops)" using "2.prems"(4) by simp
    have l1: "\<forall>q\<in>set (inserted ops). obj ?m1 q \<noteq> None \<and> q \<notin> set (ptrs t1)"
      using "2.prems"(4,5) ps by auto
    have "present ?m1 (set_tree (view ?m1 t1)) ops = present m (insert v (set_tree (view m t))) ops"
      using w by (simp add: present_obj [of ops ?m1 m] set_tree_ins)
    with "2.IH" [OF o1 b1 n1 d1 l1 z1] i v show ?thesis
      by (simp add: insert_item_def)
  qed
next
  case (3 ops)
  from "3.prems" have "distinct (ptrs t)" by (simp add: owned_distinct)
  from destroyTree_owned [OF "3.prems"(1) this] obtain m1 where
    d: "destroyTree m t = Inr (m1, Null)" and oo: "oom m1 = oom m"
    and ob: "\<forall>p. obj m1 p = (if p \<in> set (ptrs t) then None else obj m p)"
    and st: "stale m1 = stale m"
    by blast
  have same: "\<forall>p\<in>set (inserted ops). obj m1 p = obj m p"
    using ob "3.prems"(5) by simp
  have n1: "\<forall>i. \<not> oom m1 i" using oo "3.prems"(3) by simp
  have z1: "\<forall>i. \<not> stale m1 i" using st "3.prems"(6) by simp
  have l1: "\<forall>q\<in>set (inserted ops). obj m1 q \<noteq> None \<and> q \<notin> set (ptrs Null)"
    using same "3.prems"(5) by simp
  have d1: "distinct (inserted ops)" using "3.prems"(4) by simp
  from "3.IH" [of m1 Null] n1 d1 l1 z1 d present_obj [OF same] show ?case
    by (simp add: makeEmpty_def)
qed

lemma retrieveItem_bst:
  "owned m t \<Longrightarrow> bst (view m t) \<Longrightarrow>
   (x \<in> set_tree (view m t) \<longrightarrow>
      (\<exists>p. retrieveItem m t x d = Inr (True, p) \<and> p \<in> set (ptrs t) \<and> obj m p = Some x))
   \<and> (x \<notin> set_tree (view m t) \<longrightarrow> retrieveItem m t x d = Inr (False, d))"
  by (induction t) (fastforce dest: less_asym)+

text \<open>
  Where the links of every new node read as \<^verbatim>\<open>NULL\<close>: after any history of insertions and
  clearings (each inserted pointer is a live object, handed over once, and no allocation
  fails), \<^verbatim>\<open>retrieve\<close> returns success with a pointer to an element equal to the key exactly
  when an equal element was inserted and not cleared since; otherwise it returns failure
  and leaves \<^verbatim>\<open>dataItem\<close> as it was. \<^verbatim>\<open>retrieve\<close> is a \<^verbatim>\<open>const\<close> member: it returns no tree
  and no store, only the flag and the pointer.
\<close>

lemma retrieve_iff_inserted_leaves:
  assumes "\<forall>i. \<not> oom m i" and "distinct (inserted ops)"
    and "\<forall>p\<in>set (inserted ops). obj m p \<noteq> None" and "\<forall>i. \<not> stale m i"
  shows "\<exists>t m'. run m Null ops = Inr (t, m')
           \<and> (\<forall>x d. (x \<in> present m {} ops \<longrightarrow>
                        (\<exists>p. retrieve m' t x d = Inr (True, p) \<and> obj m' p = Some x))
                   \<and> (x \<notin> present m {} ops \<longrightarrow> retrieve m' t x d = Inr (False, d)))"
proof -
  from run_invariant [of m Null ops] assms obtain t m' where
    r: "run m Null ops = Inr (t, m')" and o: "owned m' t" and b: "bst (view m' t)"
    and s: "set_tree (view m' t) = present m {} ops"
    by auto
  have "(x \<in> present m {} ops \<longrightarrow>
            (\<exists>p. retrieve m' t x d = Inr (True, p) \<and> obj m' p = Some x))
        \<and> (x \<notin> present m {} ops \<longrightarrow> retrieve m' t x d = Inr (False, d))" for x d
    using retrieveItem_bst [OF o b, of x d] s unfolding retrieve_def by blast
  with r show ?thesis by blast
qed

text \<open>
  C7: \<^verbatim>\<open>retrieve\<close> should report an element found exactly when it was inserted and not
  cleared since. After the single insertion of the element 5 into the empty tree, with
  memory that does not read as zero, the root has indeterminate links; \<^verbatim>\<open>retrieve\<close> of the
  absent key 3 compares with the root and follows its left link instead of reporting "not
  found": the history yields no tree to search.
\<close>

theorem retrieve_follows_unset_links:
  "run \<lparr>cells = [Some (5::nat), Some 3, Some 8], oom = (\<lambda>i. False), stale = (\<lambda>i. True), reqs = 0\<rparr>
     Null [Insert (Some 0)] = Inl Unset_Links"
  by (simp add: insert_item_def operator_new_def)

section \<open>Rebuilding from an array\<close>

lemma bisect_Nil [simp]: "bisect [] = []"
  by (subst bisect.simps) simp

lemma bisect_step:
  "xs \<noteq> [] \<Longrightarrow>
   bisect xs = xs ! ((length xs - 1) div 2)
     # bisect (take ((length xs - 1) div 2) xs) @ bisect (drop (Suc ((length xs - 1) div 2)) xs)"
  by (subst bisect.simps) (simp add: Let_def)

lemma mid_less: "xs \<noteq> [] \<Longrightarrow> (length xs - 1) div 2 < length xs"
  by (cases xs) auto

lemma set_bisect: "set (bisect xs) = set xs"
proof (induction xs rule: length_induct)
  case (1 xs)
  show ?case
  proof (cases "xs = []")
    case True
    then show ?thesis by simp
  next
    case False
    let ?k = "(length xs - 1) div 2"
    from False have k: "?k < length xs" by (rule mid_less)
    have IH: "length ys < length xs \<Longrightarrow> set (bisect ys) = set ys" for ys :: "'a list"
      using "1.IH" by blast
    from k have lt: "length (take ?k xs) < length xs" by simp
    from k have ld: "length (drop (Suc ?k) xs) < length xs" by simp
    have "set xs = set (take ?k xs @ xs ! ?k # drop (Suc ?k) xs)"
      by (simp only: id_take_nth_drop [OF k, symmetric])
    also have "\<dots> = set (xs ! ?k # bisect (take ?k xs) @ bisect (drop (Suc ?k) xs))"
      using IH [OF lt] IH [OF ld] by auto
    also have "\<dots> = set (bisect xs)"
      by (simp only: bisect_step [OF False])
    finally show ?thesis by simp
  qed
qed

lemma fold_ins_node:
  "fold ins zs (Tree.Node l a r)
     = Tree.Node (fold ins (filter (\<lambda>z. z < a) zs) l) a (fold ins (filter (\<lambda>z. a < z) zs) r)"
  by (induction zs arbitrary: l r) auto

lemma fold_ins_bisect:
  assumes "sorted_wrt (<) xs" and "xs \<noteq> []"
  shows "fold ins (bisect xs) Leaf =
     Tree.Node (fold ins (bisect (take ((length xs - 1) div 2) xs)) Leaf)
       (xs ! ((length xs - 1) div 2))
       (fold ins (bisect (drop (Suc ((length xs - 1) div 2)) xs)) Leaf)"
proof -
  let ?k = "(length xs - 1) div 2"
  let ?a = "xs ! ?k" and ?A = "bisect (take ?k xs)" and ?B = "bisect (drop (Suc ?k) xs)"
  from assms(2) have k: "?k < length xs" by (rule mid_less)
  then have "xs = take ?k xs @ ?a # drop (Suc ?k) xs" by (rule id_take_nth_drop)
  with assms(1) have "sorted_wrt (<) (take ?k xs @ ?a # drop (Suc ?k) xs)" by simp
  then have lt: "\<forall>z\<in>set (take ?k xs). z < ?a" and gt: "\<forall>z\<in>set (drop (Suc ?k) xs). ?a < z"
    by (auto simp: sorted_wrt_append)
  from lt gt have fa: "filter (\<lambda>z. z < ?a) (?A @ ?B) = ?A"
    by (auto simp: set_bisect filter_empty_conv dest: less_asym)
  from lt gt have fb: "filter (\<lambda>z. ?a < z) (?A @ ?B) = ?B"
    by (auto simp: set_bisect filter_empty_conv dest: less_asym)
  have "fold ins (bisect xs) Leaf = fold ins (?A @ ?B) (Tree.Node Leaf ?a Leaf)"
    using assms(2) by (simp add: bisect_step)
  also have "\<dots> = Tree.Node (fold ins (filter (\<lambda>z. z < ?a) (?A @ ?B)) Leaf) ?a
      (fold ins (filter (\<lambda>z. ?a < z) (?A @ ?B)) Leaf)"
    by (rule fold_ins_node)
  finally show ?thesis by (simp only: fa fb)
qed

lemma sorted_take_drop:
  "sorted_wrt (<) xs \<Longrightarrow> sorted_wrt (<) (take k xs) \<and> sorted_wrt (<) (drop k xs)"
  by (metis append_take_drop_id sorted_wrt_append)

lemma inorder_fold_ins_bisect:
  fixes xs :: "'a::linorder list"
  shows "sorted_wrt (<) xs \<Longrightarrow> inorder (fold ins (bisect xs) Leaf) = xs"
proof (induction xs rule: length_induct)
  case (1 xs)
  show ?case
  proof (cases "xs = []")
    case True
    then show ?thesis by simp
  next
    case False
    let ?k = "(length xs - 1) div 2"
    from False have k: "?k < length xs" by (rule mid_less)
    have IH: "length ys < length xs \<Longrightarrow> sorted_wrt (<) ys
        \<Longrightarrow> inorder (fold ins (bisect ys) Leaf) = ys" for ys :: "'a list"
      using "1.IH" by blast
    from k have lt: "length (take ?k xs) < length xs" by simp
    from k have ld: "length (drop (Suc ?k) xs) < length xs" by simp
    from sorted_take_drop [OF "1.prems"] have st: "sorted_wrt (<) (take ?k xs)"
      and sd: "sorted_wrt (<) (drop (Suc ?k) xs)" by blast+
    have "inorder (fold ins (bisect (take ?k xs)) Leaf) = take ?k xs"
      by (rule IH [OF lt st])
    moreover have "inorder (fold ins (bisect (drop (Suc ?k) xs)) Leaf) = drop (Suc ?k) xs"
      by (rule IH [OF ld sd])
    ultimately have "inorder (fold ins (bisect xs) Leaf) = take ?k xs @ xs ! ?k # drop (Suc ?k) xs"
      by (simp only: fold_ins_bisect [OF "1.prems" False] inorder.simps append.simps)
    then show ?thesis
      by (simp only: id_take_nth_drop [OF k, symmetric])
  qed
qed

lemma height_fold_ins_bisect:
  fixes xs :: "'a::linorder list"
  shows "sorted_wrt (<) xs \<Longrightarrow> length xs < 2 ^ h \<Longrightarrow> height (fold ins (bisect xs) Leaf) \<le> h"
proof (induction xs arbitrary: h rule: length_induct)
  case (1 xs)
  show ?case
  proof (cases "xs = []")
    case True
    then show ?thesis by simp
  next
    case False
    let ?k = "(length xs - 1) div 2"
    from False have k: "?k < length xs" by (rule mid_less)
    from False "1.prems"(2) obtain h' where h: "h = Suc h'"
      by (cases h) auto
    with "1.prems"(2) have sz: "length (take ?k xs) < 2 ^ h'"
      "length (drop (Suc ?k) xs) < 2 ^ h'"
      by auto
    have IH: "length ys < length xs \<Longrightarrow> sorted_wrt (<) ys \<Longrightarrow> length ys < 2 ^ h'
        \<Longrightarrow> height (fold ins (bisect ys) Leaf) \<le> h'" for ys :: "'a list"
      using "1.IH" by blast
    from k have lt: "length (take ?k xs) < length xs" by simp
    from k have ld: "length (drop (Suc ?k) xs) < length xs" by simp
    from sorted_take_drop [OF "1.prems"(1)] have st: "sorted_wrt (<) (take ?k xs)"
      and sd: "sorted_wrt (<) (drop (Suc ?k) xs)" by blast+
    have "height (fold ins (bisect (take ?k xs)) Leaf) \<le> h'"
      by (rule IH [OF lt st sz(1)])
    moreover have "height (fold ins (bisect (drop (Suc ?k) xs)) Leaf) \<le> h'"
      by (rule IH [OF ld sd sz(2)])
    ultimately have "height (Tree.Node (fold ins (bisect (take ?k xs)) Leaf) (xs ! ?k)
        (fold ins (bisect (drop (Suc ?k) xs)) Leaf)) \<le> Suc h'"
      by simp
    then show ?thesis
      by (simp only: fold_ins_bisect [OF "1.prems"(1) False] h)
  qed
qed

lemma ceil_log2_bound: "n < 2 ^ nat \<lceil>log 2 (real (n + 1))\<rceil>"
proof -
  let ?k = "nat \<lceil>log 2 (real (n + 1))\<rceil>"
  have "log 2 (real (n + 1)) \<le> real ?k" by (rule real_nat_ceiling_ge)
  with less_log2_of_power [of ?k "n + 1"] have "\<not> 2 ^ ?k < n + 1" by linarith
  then show ?thesis by simp
qed

lemma length_blank: "lo + n \<le> length xs \<Longrightarrow> length (blank lo n xs) = length xs"
  by (simp add: blank_def)

lemma nth_blank:
  "lo + n \<le> length xs \<Longrightarrow> i < length xs \<Longrightarrow>
   blank lo n xs ! i = (if lo \<le> i \<and> i < lo + n then None else xs ! i)"
  by (auto simp: blank_def nth_append)

lemma blank_0: "blank lo 0 xs = xs"
  by (simp add: blank_def)

lemma blank_join:
  assumes "lo + k + 1 + n2 \<le> length xs"
  shows "blank (lo + k + 1) n2 (blank lo k (xs[lo + k := None])) = blank lo (k + 1 + n2) xs"
proof (rule nth_equalityI)
  show "length (blank (lo + k + 1) n2 (blank lo k (xs[lo + k := None]))) = length (blank lo (k + 1 + n2) xs)"
    using assms by (simp add: length_blank)
next
  fix i
  assume "i < length (blank (lo + k + 1) n2 (blank lo k (xs[lo + k := None])))"
  with assms have i: "i < length xs" by (simp add: length_blank)
  with assms show "blank (lo + k + 1) n2 (blank lo k (xs[lo + k := None])) ! i = blank lo (k + 1 + n2) xs ! i"
    by (simp add: nth_blank length_blank nth_list_update)
qed

lemma take_drop_update:
  "take k (drop lo (xs[lo + k := p])) = take k (drop lo xs)"
  by (simp add: drop_update_swap)

lemma take_drop_blank:
  assumes "lo + k + 1 + n2 \<le> length xs"
  shows "take n2 (drop (lo + k + 1) (blank lo k (xs[lo + k := None]))) = take n2 (drop (lo + k + 1) xs)"
proof (rule nth_equalityI)
  show "length (take n2 (drop (lo + k + 1) (blank lo k (xs[lo + k := None])))) = length (take n2 (drop (lo + k + 1) xs))"
    using assms by (simp add: length_blank)
next
  fix i
  assume "i < length (take n2 (drop (lo + k + 1) (blank lo k (xs[lo + k := None]))))"
  with assms have i: "i < n2" by (simp add: length_blank)
  with assms show "take n2 (drop (lo + k + 1) (blank lo k (xs[lo + k := None]))) ! i = take n2 (drop (lo + k + 1) xs) ! i"
    by (simp add: nth_blank length_blank)
qed

lemma set_tree_fold_ins: "set_tree (fold ins zs t) = set zs \<union> set_tree t"
  by (induction zs arbitrary: t) (auto simp: set_tree_ins)

lemma bst_fold_ins: "bst t \<Longrightarrow> bst (fold ins zs t)"
  by (induction zs arbitrary: t) (auto simp: bst_ins)

lemma find_last_run:
  assumes "h \<le> 100"
    and "100 \<le> length source
       \<or> h + length (takeWhile (\<lambda>p. p \<noteq> None) (take (100 - h) (drop h source))) < length source"
  shows "find_last source (int h)
     = Inr (int (h + length (takeWhile (\<lambda>p. p \<noteq> None) (take (100 - h) (drop h source)))))"
  using assms
proof (induction "100 - h" arbitrary: h)
  case 0
  then show ?case by (subst find_last.simps) simp
next
  case (Suc d)
  then have h: "h < 100" by simp
  from Suc.hyps(2) have e: "100 - h = Suc d" "100 - Suc h = d" "99 - h = d" by simp_all
  from h Suc.prems(2) have hl: "h < length source" by auto
  then have r: "read_slot source (int h) = Inr (source ! h)"
    by (simp add: read_slot_def)
  from hl have "drop h source = source ! h # drop (Suc h) source"
    by (simp add: Cons_nth_drop_Suc)
  then have td: "take (100 - h) (drop h source) = source ! h # take d (drop (Suc h) source)"
    by (simp add: e(1))
  show ?case
  proof (cases "source ! h = None")
    case True
    with h r td show ?thesis by (subst find_last.simps) simp
  next
    case False
    from False td Suc.prems(2) have c: "100 \<le> length source
       \<or> Suc h + length (takeWhile (\<lambda>p. p \<noteq> None) (take (100 - Suc h) (drop (Suc h) source)))
           < length source"
      by (auto simp: e(2) e(3))
    from h have "Suc h \<le> 100" by simp
    with e(2) have "find_last source (int (Suc h))
       = Inr (int (Suc h + length (takeWhile (\<lambda>p. p \<noteq> None) (take (100 - Suc h) (drop (Suc h) source)))))"
      using c by (intro Suc.hyps(1)) simp_all
    then have "find_last source (int h + 1)
       = Inr (int (Suc h + length (takeWhile (\<lambda>p. p \<noteq> None) (take d (drop (Suc h) source)))))"
      by (simp add: e(3) add.commute)
    with False h r td show ?thesis
      by (subst find_last.simps) simp
  qed
qed

lemma trunc_div_nonneg: "0 \<le> a \<Longrightarrow> trunc_div a 2 = a div 2"
  by (simp add: trunc_div_def sgn_if)

lemma bisectBuild_empty:
  assumes "1 \<le> lo"
  shows "bisectBuild s (int lo) (int lo - 1) = Inr s"
proof -
  from assms have "trunc_div (int lo + (int lo - 1)) 2 = (int lo + (int lo - 1)) div 2"
    by (intro trunc_div_nonneg) simp
  also have "\<dots> = int lo - 1" by presburger
  finally have mid: "trunc_div (int lo + (int lo - 1)) 2 = int lo - 1" .
  have no: "\<not> int lo \<le> int lo - 1" by simp
  show ?thesis
    by (subst bisectBuild.simps) (simp only: mid no Let_def if_False split: prod.splits, simp)
qed

lemma mid_arith:
  assumes "1 \<le> n"
  shows "trunc_div (int lo + (int lo + int n - 1)) 2 = int (lo + (n - 1) div 2)"
proof -
  from assms have "trunc_div (int lo + (int lo + int n - 1)) 2 = (int lo + (int lo + int n - 1)) div 2"
    by (intro trunc_div_nonneg) simp
  moreover from assms have "int ((n - 1) div 2) = (int n - 1) div 2"
    by (simp add: zdiv_int of_nat_diff)
  ultimately show ?thesis by simp
qed

lemma bisectBuild_step:
  assumes "1 \<le> n" and "k = (n - 1) div 2" and "lo + n \<le> length source"
    and "insertItem m t (source ! (lo + k)) = Inr (True, t1, m1)"
  shows "bisectBuild (m, t, source) (int lo) (int lo + int n - 1) =
     (case bisectBuild (m1, t1, source[lo + k := None]) (int lo) (int lo + int k - 1) of
        Inl e \<Rightarrow> Inl e
      | Inr s1 \<Rightarrow> bisectBuild s1 (int (lo + k + 1)) (int lo + int n - 1))"
proof -
  from assms(1,2) have k: "k < n" by simp
  with assms(3) have len: "lo + k < length source" by simp
  from mid_arith [OF assms(1), of lo] assms(2)
  have mid: "trunc_div (int lo + (int lo + int n - 1)) 2 = int (lo + k)"
    by (simp only:)
  from len have r: "read_slot source (int (lo + k)) = Inr (source ! (lo + k))"
    by (simp add: read_slot_def nat_add_distrib)
  from len have w: "write_slot source (int (lo + k)) None = Inr (source[lo + k := None])"
    by (simp add: write_slot_def nat_add_distrib)
  have a: "int (lo + k) - 1 = int lo + int k - 1" "int (lo + k) + 1 = int (lo + k + 1)"
    by simp_all
  show ?thesis
    by (subst bisectBuild.simps)
      (simp only: mid r w a assms(4) insert_item_def Let_def prod.case sum.case if_True
        of_nat_le_iff le_add1)
qed

lemma obj_fun_cells: "cells m' = cells m \<Longrightarrow> obj m' = obj m"
  by (rule ext) (rule obj_cells)

lemma bisectBuild_run:
  fixes m :: "'a::linorder store"
  assumes "1 \<le> lo" and "lo + n \<le> length source"
    and "\<forall>p\<in>set (take n (drop lo source)). obj m p \<noteq> None"
    and "distinct (map (\<lambda>p. the (obj m p)) (take n (drop lo source)))"
    and "\<forall>p\<in>set (take n (drop lo source)). the (obj m p) \<notin> set_tree (view m t)"
    and "owned m t" and "bst (view m t)" and "\<forall>i. \<not> oom m i" and "\<forall>i. \<not> stale m i"
  shows "\<exists>m' t'. bisectBuild (m, t, source) (int lo) (int lo + int n - 1)
             = Inr (m', t', blank lo n source)
          \<and> cells m' = cells m \<and> oom m' = oom m \<and> stale m' = stale m \<and> owned m' t'
          \<and> view m' t' = fold ins (bisect (map (\<lambda>p. the (obj m p)) (take n (drop lo source)))) (view m t)
          \<and> set (ptrs t') = set (ptrs t) \<union> set (take n (drop lo source))"
  using assms
proof (induction n arbitrary: m t source lo rule: less_induct)
  case (less n)
  show ?case
  proof (cases "n = 0")
    case True
    with less.prems(1,6) bisectBuild_empty [of lo "(m, t, source)"] show ?thesis
      by (simp add: blank_0)
  next
    case False
    define k where "k = (n - 1) div 2"
    define ps where "ps = take n (drop lo source)"
    define vs where "vs = map (\<lambda>p. the (obj m p)) ps"
    define n2 where "n2 = n - k - 1"
    let ?m1 = "m\<lparr>reqs := Suc (reqs m)\<rparr>"
    let ?s1 = "source[lo + k := None]"
    from False have k: "k < n" and n1: "1 \<le> n" by (simp_all add: k_def)
    then have n_split: "n = k + 1 + n2" by (simp add: n2_def)
    from less.prems(2) have len_ps: "length ps = n" by (simp add: ps_def)
    from less.prems(3) have live: "\<forall>p\<in>set ps. obj m p \<noteq> None" by (simp only: ps_def)
    from less.prems(5) have fresh: "\<forall>p\<in>set ps. the (obj m p) \<notin> set_tree (view m t)"
      by (simp only: ps_def)
    have sub1: "set (take k ps) \<subseteq> set ps" by (rule set_take_subset)
    have sub2: "set (drop (Suc k) ps) \<subseteq> set ps" by (rule set_drop_subset)
    from len_ps have len_vs: "length vs = n" by (simp add: vs_def)
    from k less.prems(2) have pk: "source ! (lo + k) = ps ! k" by (simp add: ps_def)
    from k len_ps have in_ps: "ps ! k \<in> set ps" by simp
    with live obtain v where v: "obj m (ps ! k) = Some v" by auto
    from k len_ps v have vk: "vs ! k = v" by (simp add: vs_def)
    from k len_vs have klt: "k < length vs" by simp
    from less.prems(4) have "distinct vs" by (simp add: vs_def ps_def)
    then have "distinct (take k vs @ vs ! k # drop (Suc k) vs)"
      by (simp only: id_take_nth_drop [OF klt, symmetric])
    then have dist: "distinct (take k vs)" "distinct (drop (Suc k) vs)"
      "v \<notin> set (take k vs)" "v \<notin> set (drop (Suc k) vs)"
      "set (take k vs) \<inter> set (drop (Suc k) vs) = {}"
      by (auto simp: vk)
    from False len_vs have bis: "bisect vs = v # bisect (take k vs) @ bisect (drop (Suc k) vs)"
      using bisect_step [of vs] vk by (auto simp: k_def)
    from in_ps fresh v have "v \<notin> set_tree (view m t)" by auto
    with less.prems(7) have notin: "\<not> isin (view m t) v" by (simp add: isin_set)
    from less.prems(8,9) have "\<not> oom m (reqs m)" and "\<not> stale m (reqs m)" by simp_all
    from insertItem_new [OF less.prems(6) v notin this] obtain t1 where
      i: "insertItem m t (ps ! k) = Inr (True, t1, ?m1)" and o1: "owned m t1"
      and w1: "view m t1 = ins v (view m t)" and p1: "set (ptrs t1) = insert (ps ! k) (set (ptrs t))"
      by blast
    from i pk have i': "insertItem m t (source ! (lo + k)) = Inr (True, t1, ?m1)" by simp
    have step: "bisectBuild (m, t, source) (int lo) (int lo + int n - 1) =
       (case bisectBuild (?m1, t1, ?s1) (int lo) (int lo + int k - 1) of
          Inl e \<Rightarrow> Inl e
        | Inr s1 \<Rightarrow> bisectBuild s1 (int (lo + k + 1)) (int lo + int n - 1))"
      using n1 k_def less.prems(2) i' by (rule bisectBuild_step)
    have obj1: "obj ?m1 = obj m" by (rule obj_fun_cells) simp
    have ps1: "take k (drop lo ?s1) = take k ps"
      using k by (simp add: take_drop_update ps_def min_def)
    have vs1: "map (\<lambda>p. the (obj m p)) (take k ps) = take k vs"
      by (simp add: vs_def take_map)
    have a2: "lo + k \<le> length ?s1" using k less.prems(2) by simp
    have a3: "\<forall>p\<in>set (take k (drop lo ?s1)). obj ?m1 p \<noteq> None"
      using live sub1 unfolding ps1 obj1 by auto
    have a4: "distinct (map (\<lambda>p. the (obj ?m1 p)) (take k (drop lo ?s1)))"
      using dist(1) unfolding ps1 obj1 vs1 by simp
    have a5: "\<forall>p\<in>set (take k (drop lo ?s1)). the (obj ?m1 p) \<notin> set_tree (view ?m1 t1)"
    proof
      fix p assume "p \<in> set (take k (drop lo ?s1))"
      then have pin: "p \<in> set (take k ps)" unfolding ps1 by simp
      then have "the (obj m p) \<in> set (take k vs)" by (auto simp: vs1 [symmetric])
      with dist(3) have "the (obj m p) \<noteq> v" by auto
      moreover from pin fresh sub1 have "the (obj m p) \<notin> set_tree (view m t)"
        by auto
      ultimately show "the (obj ?m1 p) \<notin> set_tree (view ?m1 t1)"
        by (simp add: w1 set_tree_ins)
    qed
    have a6: "owned ?m1 t1" using o1 by simp
    have a7: "bst (view ?m1 t1)" using w1 less.prems(7) by (simp add: bst_ins)
    have a8: "\<forall>i. \<not> oom ?m1 i" using less.prems(8) by simp
    have a9: "\<forall>i. \<not> stale ?m1 i" using less.prems(9) by simp
    from less.IH [OF k less.prems(1) a2 a3 a4 a5 a6 a7 a8 a9] obtain m2 t2 where
      b2: "bisectBuild (?m1, t1, ?s1) (int lo) (int lo + int k - 1) = Inr (m2, t2, blank lo k ?s1)"
      and c2: "cells m2 = cells ?m1" and oo2: "oom m2 = oom ?m1" and st2: "stale m2 = stale ?m1"
      and o2: "owned m2 t2"
      and w2: "view m2 t2 = fold ins (bisect (map (\<lambda>p. the (obj ?m1 p)) (take k (drop lo ?s1)))) (view ?m1 t1)"
      and p2: "set (ptrs t2) = set (ptrs t1) \<union> set (take k (drop lo ?s1))"
      by blast
    from w2 have w2': "view m2 t2 = fold ins (bisect (take k vs)) (ins v (view m t))"
      unfolding ps1 obj1 vs1 by (simp add: w1)
    let ?s2 = "blank lo k ?s1"
    have obj2: "obj m2 = obj m" using c2 by (intro obj_fun_cells) simp
    have bound: "lo + k + 1 + n2 \<le> length source" using less.prems(2) n_split by simp
    have ps2: "take n2 (drop (lo + k + 1) ?s2) = drop (Suc k) ps"
      using take_drop_blank [OF bound]
      by (simp add: ps_def drop_take n2_def add.commute add.left_commute)
    have vs2: "map (\<lambda>p. the (obj m p)) (drop (Suc k) ps) = drop (Suc k) vs"
      by (simp add: vs_def drop_map)
    have n2_less: "n2 < n" using k by (simp add: n2_def)
    have r1: "1 \<le> lo + k + 1" by simp
    have r2: "lo + k + 1 + n2 \<le> length ?s2"
      using bound k less.prems(2) by (simp add: length_blank)
    have r3: "\<forall>p\<in>set (take n2 (drop (lo + k + 1) ?s2)). obj m2 p \<noteq> None"
      using live sub2 unfolding ps2 obj2 by auto
    have r4: "distinct (map (\<lambda>p. the (obj m2 p)) (take n2 (drop (lo + k + 1) ?s2)))"
      using dist(2) unfolding ps2 obj2 vs2 by simp
    have r5: "\<forall>p\<in>set (take n2 (drop (lo + k + 1) ?s2)). the (obj m2 p) \<notin> set_tree (view m2 t2)"
    proof
      fix p assume "p \<in> set (take n2 (drop (lo + k + 1) ?s2))"
      then have pin: "p \<in> set (drop (Suc k) ps)" unfolding ps2 by simp
      then have vin: "the (obj m p) \<in> set (drop (Suc k) vs)" by (auto simp: vs2 [symmetric])
      with dist(4) have "the (obj m p) \<noteq> v" by auto
      moreover from vin dist(5) have "the (obj m p) \<notin> set (take k vs)" by auto
      moreover from pin fresh sub2 have "the (obj m p) \<notin> set_tree (view m t)"
        by auto
      ultimately show "the (obj m2 p) \<notin> set_tree (view m2 t2)"
        by (simp add: obj2 w2' set_tree_fold_ins set_tree_ins set_bisect)
    qed
    have r7: "bst (view m2 t2)"
      using less.prems(7) by (simp add: w2' bst_fold_ins bst_ins)
    have r8: "\<forall>i. \<not> oom m2 i" using less.prems(8) oo2 by simp
    have r9: "\<forall>i. \<not> stale m2 i" using less.prems(9) st2 by simp
    from less.IH [OF n2_less r1 r2 r3 r4 r5 o2 r7 r8 r9] obtain m3 t3 where
      b3: "bisectBuild (m2, t2, ?s2) (int (lo + k + 1)) (int (lo + k + 1) + int n2 - 1)
            = Inr (m3, t3, blank (lo + k + 1) n2 ?s2)"
      and c3: "cells m3 = cells m2" and oo3: "oom m3 = oom m2" and st3: "stale m3 = stale m2"
      and o3: "owned m3 t3"
      and w3: "view m3 t3 = fold ins (bisect (map (\<lambda>p. the (obj m2 p))
                  (take n2 (drop (lo + k + 1) ?s2)))) (view m2 t2)"
      and p3: "set (ptrs t3) = set (ptrs t2) \<union> set (take n2 (drop (lo + k + 1) ?s2))"
      by blast
    have hi: "int (lo + k + 1) + int n2 - 1 = int lo + int n - 1"
      using n_split by simp
    have fin: "blank (lo + k + 1) n2 ?s2 = blank lo n source"
      using blank_join [OF bound] n_split by simp
    from b3 have b3': "bisectBuild (m2, t2, ?s2) (int (lo + k + 1)) (int lo + int n - 1)
            = Inr (m3, t3, blank lo n source)"
      unfolding hi fin .
    have res: "bisectBuild (m, t, source) (int lo) (int lo + int n - 1) = Inr (m3, t3, blank lo n source)"
      by (simp only: step b2 sum.case b3')
    from w3 have w3': "view m3 t3 = fold ins (bisect vs) (view m t)"
      unfolding ps2 obj2 vs2 w2' bis by simp
    from k len_ps have kps: "k < length ps" by simp
    have "set (take k ps @ ps ! k # drop (Suc k) ps) = set ps"
      by (simp only: id_take_nth_drop [OF kps, symmetric])
    then have "set ps = set (take k ps) \<union> {ps ! k} \<union> set (drop (Suc k) ps)"
      by auto
    with p3 p2 p1 have p3': "set (ptrs t3) = set (ptrs t) \<union> set ps"
      unfolding ps1 ps2 by auto
    from res c3 c2 oo3 oo2 st3 st2 o3 w3' p3' show ?thesis
      by (simp add: vs_def ps_def)
  qed
qed

lemma run_slots_take:
  "run_slots source = take (length (run_slots source)) (drop 10 source)"
proof -
  let ?xs = "take 90 (drop 10 source)"
  have "run_slots source = take (length (run_slots source)) ?xs"
    unfolding run_slots_def by (rule takeWhile_eq_take)
  moreover have "length (run_slots source) \<le> 90"
    unfolding run_slots_def
    by (rule order_trans [OF length_takeWhile_le]) simp
  ultimately show ?thesis by (metis min.absorb1 take_take)
qed

lemma run_slots_Nil:
  "10 < length source \<Longrightarrow> (run_slots source = []) = (source ! 10 = None)"
proof -
  assume "10 < length source"
  then have "source ! 10 # drop (Suc 10) source = drop 10 source"
    by (rule Cons_nth_drop_Suc)
  then have "run_slots source
      = takeWhile (\<lambda>p. p \<noteq> None) (take 90 (source ! 10 # drop (Suc 10) source))"
    by (simp only: run_slots_def)
  then show ?thesis
    by simp
qed

lemma arrayToBSTree_build:
  fixes m :: "'a::linorder store"
  assumes "100 \<le> length source \<or> 10 + length (run_slots source) < length source"
    and "owned m t" and "bst (view m t)" and "\<forall>i. \<not> oom m i"
    and "\<forall>p\<in>set (run_slots source). obj m p \<noteq> None \<and> p \<notin> set (ptrs t)"
    and "distinct (map (\<lambda>p. the (obj m p)) (run_slots source))"
    and "\<forall>i. \<not> stale m i"
  shows "\<exists>m' t'. arrayToBSTree m t source
             = Inr (m', t', blank 10 (length (run_slots source)) source)
          \<and> owned m' t'
          \<and> view m' t' = fold ins (bisect (map (\<lambda>p. the (obj m p)) (run_slots source))) Leaf
          \<and> set (ptrs t') = set (run_slots source)
          \<and> (\<forall>p. obj m' p = (if p \<in> set (ptrs t) then None else obj m p))"
proof -
  let ?rs = "run_slots source" and ?n = "length (run_slots source)"
  from assms(2,3) have "distinct (ptrs t)" by (rule owned_distinct)
  from destroyTree_owned [OF assms(2) this] obtain m1 where
    d: "destroyTree m t = Inr (m1, Null)" and oo: "oom m1 = oom m"
    and ob: "\<forall>p. obj m1 p = (if p \<in> set (ptrs t) then None else obj m p)"
    and st: "stale m1 = stale m"
    by blast
  have n90: "?n \<le> 90"
    unfolding run_slots_def by (rule order_trans [OF length_takeWhile_le]) simp
  from assms(1) have len: "10 < length source" by auto
  have "(10::nat) \<le> 100" by simp
  moreover from assms(1) have "100 \<le> length source
      \<or> 10 + length (takeWhile (\<lambda>p. p \<noteq> None) (take (100 - 10) (drop 10 source))) < length source"
    by (simp add: run_slots_def)
  ultimately have "find_last source (int 10)
      = Inr (int (10 + length (takeWhile (\<lambda>p. p \<noteq> None) (take (100 - 10) (drop 10 source)))))"
    by (rule find_last_run)
  then have f: "find_last source 10 = Inr (10 + int ?n)"
    by (simp add: run_slots_def)
  from len have r: "read_slot source 10 = Inr (source ! 10)"
    by (simp add: read_slot_def)
  show ?thesis
  proof (cases "source ! 10 = None")
    case True
    with len have e: "?rs = []" by (simp add: run_slots_Nil)
    from d f r True have "arrayToBSTree m t source = Inr (m1, Null, source)"
      by (simp add: arrayToBSTree_def)
    with e ob show ?thesis by (simp add: blank_0)
  next
    case False
    have same: "\<forall>p\<in>set ?rs. obj m1 p = obj m p" using ob assms(5) by simp
    have vals: "map (\<lambda>p. the (obj m1 p)) ?rs = map (\<lambda>p. the (obj m p)) ?rs"
      using same by simp
    have rs: "take ?n (drop 10 source) = ?rs" by (rule run_slots_take [symmetric])
    from n90 assms(1) have b2: "10 + ?n \<le> length source" by auto
    have b1: "1 \<le> (10::nat)" by simp
    have b3: "\<forall>p\<in>set (take ?n (drop 10 source)). obj m1 p \<noteq> None"
      unfolding rs using same assms(5) by simp
    have b4: "distinct (map (\<lambda>p. the (obj m1 p)) (take ?n (drop 10 source)))"
      unfolding rs vals by (rule assms(6))
    have b5: "\<forall>p\<in>set (take ?n (drop 10 source)). the (obj m1 p) \<notin> set_tree (view m1 Null)"
      by simp
    have b6: "owned m1 Null" by simp
    have b7: "bst (view m1 Null)" by simp
    have b8: "\<forall>i. \<not> oom m1 i" using oo assms(4) by simp
    have b9: "\<forall>i. \<not> stale m1 i" using st assms(7) by simp
    from bisectBuild_run [OF b1 b2 b3 b4 b5 b6 b7 b8 b9] obtain m' t' where
      bb: "bisectBuild (m1, Null, source) (int 10) (int 10 + int ?n - 1) = Inr (m', t', blank 10 ?n source)"
      and c: "cells m' = cells m1" and o: "owned m' t'"
      and w: "view m' t' = fold ins (bisect (map (\<lambda>p. the (obj m1 p)) (take ?n (drop 10 source)))) (view m1 Null)"
      and p: "set (ptrs t') = set (ptrs Null) \<union> set (take ?n (drop 10 source))"
      by blast
    have hi: "10 + int ?n - 1 = int 10 + int ?n - 1" by simp
    from d f r False bb have "arrayToBSTree m t source = Inr (m', t', blank 10 ?n source)"
      by (simp add: arrayToBSTree_def)
    moreover from w have "view m' t' = fold ins (bisect (map (\<lambda>p. the (obj m p)) ?rs)) Leaf"
      unfolding rs vals by simp
    moreover from p have "set (ptrs t') = set ?rs" unfolding rs by simp
    moreover from c ob have "\<forall>p. obj m' p = (if p \<in> set (ptrs t) then None else obj m p)"
      by (simp add: obj_fun_cells [of m' m1])
    ultimately show ?thesis using o by blast
  qed
qed

text \<open>
  C10 as stated fails when the run holds two equal values: \<^verbatim>\<open>bisectBuild\<close> gives up a segment
  when \<^verbatim>\<open>insert\<close> rejects its middle element. With the values 1, 2, 2, 3 in slots 10 to 13
  (and memory that reads as zero, so that every new node is a leaf), the second 2 is
  rejected and the 3 behind it is never inserted; both stay in the buffer.
\<close>

theorem arrayToBSTree_after_duplicate:
  "run_slots (replicate 10 None @ [Some 0, Some 1, Some 2, Some 3] @ replicate 86 None)
     = [Some 0, Some 1, Some 2, Some 3]
   \<and> arrayToBSTree \<lparr>cells = [Some (1::nat), Some 2, Some 2, Some 3], oom = (\<lambda>i. False), stale = (\<lambda>i. False), reqs = 0\<rparr> Null
       (replicate 10 None @ [Some 0, Some 1, Some 2, Some 3] @ replicate 86 None)
     = Inr (\<lparr>cells = [Some 1, Some 2, Some 2, Some 3], oom = (\<lambda>i. False), stale = (\<lambda>i. False), reqs = 2\<rparr>,
            Node (Some 1) (Node (Some 0) Null Null) Null,
            replicate 10 None @ [None, None, Some 2, Some 3] @ replicate 86 None)"
  by (simp add: run_slots_def arrayToBSTree_def find_last.simps bisectBuild.simps read_slot_def
      write_slot_def insert_item_def operator_new_def obj_def trunc_div_def nth_append
      list_update_append Let_def)

text \<open>
  C10, as amended: take a buffer that has 100 slots or more, or in which an empty slot ends
  the run inside the buffer, and whose run of non-empty slots from index 10 holds live
  elements with pairwise different values, none of them owned by the tree. Where no
  allocation fails and the links of every new node read as \<^verbatim>\<open>NULL\<close>, \<^verbatim>\<open>arrayToBSTree\<close> first
  deletes the elements of the tree and then inserts exactly the elements of the run: the new
  tree holds the pointers of the run and nothing else, the slots of the run are cleared and
  every other slot is left as it was; if slot 10 is empty the tree is empty. Nothing is
  said here of new nodes whose links do not read as \<^verbatim>\<open>NULL\<close>.
\<close>

theorem arrayToBSTree_distinct_run:
  fixes m :: "'a::linorder store"
  assumes "100 \<le> length source \<or> 10 + length (run_slots source) < length source"
    and "owned m t" and "bst (view m t)" and "\<forall>i. \<not> oom m i" and "\<forall>i. \<not> stale m i"
    and "\<forall>p\<in>set (run_slots source). obj m p \<noteq> None \<and> p \<notin> set (ptrs t)"
    and "distinct (map (\<lambda>p. the (obj m p)) (run_slots source))"
  shows "\<exists>m' t'. arrayToBSTree m t source
             = Inr (m', t', take 10 source @ replicate (length (run_slots source)) None
                              @ drop (10 + length (run_slots source)) source)
          \<and> (\<forall>p\<in>set (ptrs t). obj m' p = None)
          \<and> set (ptrs t') = set (run_slots source)
          \<and> count t' = length (run_slots source)
          \<and> set_tree (view m' t') = (\<lambda>p. the (obj m p)) ` set (run_slots source)
          \<and> (source ! 10 = None \<longrightarrow> isEmpty t')"
proof -
  from assms(1) have len: "10 < length source" by auto
  from arrayToBSTree_build [OF assms(1-4) assms(6,7) assms(5)] obtain m' t' where
    a: "arrayToBSTree m t source = Inr (m', t', blank 10 (length (run_slots source)) source)"
    and w: "view m' t' = fold ins (bisect (map (\<lambda>p. the (obj m p)) (run_slots source))) Leaf"
    and p: "set (ptrs t') = set (run_slots source)"
    and ob: "\<forall>p. obj m' p = (if p \<in> set (ptrs t) then None else obj m p)"
    and o: "owned m' t'"
    by blast
  from w have s: "set_tree (view m' t') = (\<lambda>p. the (obj m p)) ` set (run_slots source)"
    by (simp add: set_tree_fold_ins set_bisect)
  have "source ! 10 = None \<longrightarrow> isEmpty t'"
  proof
    assume "source ! 10 = None"
    with len have "run_slots source = []" by (simp add: run_slots_Nil)
    with p show "isEmpty t'" by (cases t') (auto simp: isEmpty_def)
  qed
  moreover have "count t' = length (run_slots source)"
  proof -
    from w have "bst (view m' t')" by (simp add: bst_fold_ins)
    with o have "distinct (ptrs t')" by (rule owned_distinct)
    moreover from assms(7) have "distinct (run_slots source)" by (simp add: distinct_map)
    ultimately have "length (ptrs t') = length (run_slots source)"
      using p by (metis distinct_card)
    then show ?thesis by (simp add: length_ptrs)
  qed
  ultimately show ?thesis using a p s ob by (auto simp: blank_def)
qed

theorem arrayToBSTree_distinct_run_witness:
  "\<exists>m' t'.
      arrayToBSTree \<lparr>cells = [Some (1::nat), Some 2, Some 3], oom = (\<lambda>i. False), stale = (\<lambda>i. False), reqs = 0\<rparr> Null
        (replicate 10 None @ [Some 0, Some 1, Some 2] @ replicate 7 None)
        = Inr (m', t', replicate 10 None @ [None, None, None] @ replicate 7 None)
    \<and> set (ptrs t') = {Some 0, Some 1, Some 2}
    \<and> count t' = 3"
proof -
  let ?m = "\<lparr>cells = [Some (1::nat), Some 2, Some 3], oom = (\<lambda>i. False), stale = (\<lambda>i. False), reqs = 0\<rparr>"
  let ?s = "replicate 10 None @ [Some 0, Some 1, Some 2] @ replicate 7 None"
  have r: "run_slots ?s = [Some 0, Some 1, Some 2]" by (simp add: run_slots_def)
  have a: "100 \<le> length ?s \<or> 10 + length (run_slots ?s) < length ?s"
    unfolding r by simp
  have b: "owned ?m Null" by simp
  have c: "bst (view ?m Null)" by simp
  have d: "\<forall>i. \<not> oom ?m i" by simp
  have z: "\<forall>i. \<not> stale ?m i" by simp
  have e: "\<forall>p\<in>set (run_slots ?s). obj ?m p \<noteq> None \<and> p \<notin> set (ptrs Null)"
    unfolding r by (simp add: obj_def)
  have f: "distinct (map (\<lambda>p. the (obj ?m p)) (run_slots ?s))"
    unfolding r by (simp add: obj_def)
  have t: "take 10 ?s @ replicate (length [Some (0::nat), Some 1, Some 2]) None
      @ drop (10 + length [Some (0::nat), Some 1, Some 2]) ?s
      = replicate 10 None @ [None, None, None] @ replicate 7 None"
    by simp
  from arrayToBSTree_distinct_run [OF a b c d z e f] obtain m' t' where
    "arrayToBSTree ?m Null ?s = Inr (m', t', replicate 10 None @ [None, None, None] @ replicate 7 None)"
    "set (ptrs t') = {Some 0, Some 1, Some 2}" "count t' = 3"
    unfolding r t by auto
  then show ?thesis by blast
qed

lemma owned_ptrs_live: "owned m t \<Longrightarrow> \<forall>p\<in>set (ptrs t). obj m p \<noteq> None"
  by (induction t) auto

lemma run_slots_exported:
  assumes "\<forall>p\<in>set ps. p \<noteq> None" and "length ps \<le> 90"
  shows "run_slots (replicate 10 None @ ps @ replicate (90 - length ps) None) = ps"
proof -
  have "take 90 (drop 10 (replicate 10 None @ ps @ replicate (90 - length ps) None))
      = ps @ replicate (90 - length ps) None"
    using assms(2) by simp
  then show ?thesis
    using assms(1) by (simp add: run_slots_def takeWhile_append2 takeWhile_replicate)
qed

text \<open>
  Where the links of every new node read as \<^verbatim>\<open>NULL\<close> and no allocation fails: for a tree of
  at most 90 elements that keeps the search order, \<^verbatim>\<open>bstreeToArray\<close> into 100 empty slots
  followed by \<^verbatim>\<open>arrayToBSTree\<close> yields a tree with the same set of elements, in search order,
  of height at most \<open>\<lceil>log\<^sub>2 (n + 1)\<rceil>\<close> for \<open>n\<close> elements.
\<close>

lemma roundtrip_rebalances_leaves:
  fixes m :: "'a::linorder store"
  assumes "owned m t" and "bst (view m t)" and "\<forall>i. \<not> oom m i" and "\<forall>i. \<not> stale m i"
    and "length target = 100" and "\<forall>p\<in>set target. p = None" and "count t \<le> 90"
  shows "\<exists>m1 t1 target1 m2 t2 target2.
           bstreeToArray m t target = Inr (m1, t1, target1)
         \<and> arrayToBSTree m1 t1 target1 = Inr (m2, t2, target2)
         \<and> owned m2 t2
         \<and> set_tree (view m2 t2) = set_tree (view m t)
         \<and> bst (view m2 t2)
         \<and> height (view m2 t2) \<le> nat \<lceil>log 2 (real (count t + 1))\<rceil>"
proof -
  let ?t1 = "replicate 10 None @ ptrs t @ replicate (90 - length (ptrs t)) None"
  let ?vs = "inorder (view m t)"
  from assms(5,7) have cap: "10 + count t \<le> length target" by simp
  from bstreeToArray_result [OF assms(6) cap, of m] assms(5)
  have exp: "bstreeToArray m t target = Inr (m, Null, ?t1)"
    by (simp add: length_ptrs)
  from assms(1) have live: "\<forall>p\<in>set (ptrs t). obj m p \<noteq> None" by (rule owned_ptrs_live)
  have "obj m None = None" by (simp add: obj_def)
  with live have nonnull: "\<forall>p\<in>set (ptrs t). p \<noteq> None" by metis
  from assms(7) have "length (ptrs t) \<le> 90" by (simp add: length_ptrs)
  with nonnull have run: "run_slots ?t1 = ptrs t" by (rule run_slots_exported)
  from assms(1) have vals: "map (\<lambda>p. the (obj m p)) (ptrs t) = ?vs" by (rule ptrs_values)
  from assms(2) have sorted: "sorted_wrt (<) ?vs" by (simp add: bst_iff_sorted_wrt_less)
  have c1: "100 \<le> length ?t1 \<or> 10 + length (run_slots ?t1) < length ?t1"
    using assms(7) by (simp add: length_ptrs)
  have c2: "owned m Null" by simp
  have c3: "bst (view m Null)" by simp
  have c5: "\<forall>p\<in>set (run_slots ?t1). obj m p \<noteq> None \<and> p \<notin> set (ptrs Null)"
    unfolding run using live by simp
  have c6: "distinct (map (\<lambda>p. the (obj m p)) (run_slots ?t1))"
    unfolding run vals using sorted by (simp add: strict_sorted_iff)
  from arrayToBSTree_build [OF c1 c2 c3 assms(3) c5 c6 assms(4)] obtain m2 t2 where
    imp: "arrayToBSTree m Null ?t1 = Inr (m2, t2, blank 10 (length (run_slots ?t1)) ?t1)"
    and o: "owned m2 t2"
    and w: "view m2 t2 = fold ins (bisect (map (\<lambda>p. the (obj m p)) (run_slots ?t1))) Leaf"
    by blast
  from w have w': "view m2 t2 = fold ins (bisect ?vs) Leaf" unfolding run vals .
  from sorted have io: "inorder (view m2 t2) = ?vs"
    unfolding w' by (rule inorder_fold_ins_bisect)
  then have "set (inorder (view m2 t2)) = set ?vs" by simp
  then have s: "set_tree (view m2 t2) = set_tree (view m t)" by simp
  from sorted io have b: "bst (view m2 t2)" by (simp add: bst_iff_sorted_wrt_less)
  have "length ?vs = count t"
    using vals length_ptrs [of t] by (metis length_map)
  with ceil_log2_bound [of "count t"]
  have "length ?vs < 2 ^ nat \<lceil>log 2 (real (count t + 1))\<rceil>" by simp
  with sorted have h: "height (view m2 t2) \<le> nat \<lceil>log 2 (real (count t + 1))\<rceil>"
    unfolding w' by (rule height_fold_ins_bisect)
  from exp imp o s b h show ?thesis by blast
qed

text \<open>
  C3: exporting a tree and importing the buffer should give a tree with the same elements,
  in search order and balanced. The import builds the tree with \<^verbatim>\<open>insert\<close>, which never
  assigns the links of the node it creates. For a tree of the two elements 3 and 5, 100
  empty slots and memory that does not read as zero, the export succeeds, and the import
  creates a root for 3 with indeterminate links and then inserts 5 below it, through its
  right link: there is no tree to give back.
\<close>

theorem roundtrip_leaves_links_unset:
  "bstreeToArray \<lparr>cells = [Some (5::nat), Some 3], oom = (\<lambda>i. False), stale = (\<lambda>i. True), reqs = 0\<rparr>
     (Node (Some 0) (Node (Some 1) Null Null) Null) (replicate 100 None)
     = Inr (\<lparr>cells = [Some (5::nat), Some 3], oom = (\<lambda>i. False), stale = (\<lambda>i. True), reqs = 0\<rparr>,
            Null, replicate 10 None @ [Some 1, Some 0] @ replicate 88 None)
   \<and> arrayToBSTree \<lparr>cells = [Some (5::nat), Some 3], oom = (\<lambda>i. False), stale = (\<lambda>i. True), reqs = 0\<rparr>
       Null (replicate 10 None @ [Some 1, Some 0] @ replicate 88 None)
     = Inl Unset_Links"
proof -
  let ?m = "\<lparr>cells = [Some (5::nat), Some 3], oom = (\<lambda>i. False), stale = (\<lambda>i. True), reqs = 0\<rparr>"
  let ?t = "Node (Some 0) (Node (Some 1) Null Null) Null"
  have "\<forall>p\<in>set (replicate 100 None). p = (None::ptr)" by simp
  moreover have "10 + count ?t \<le> length (replicate 100 (None::ptr))" by simp
  ultimately have "bstreeToArray ?m ?t (replicate 100 None)
      = Inr (?m, Null, replicate 10 None @ ptrs ?t
               @ replicate (length (replicate 100 (None::ptr)) - 10 - count ?t) None)"
    by (rule bstreeToArray_result)
  then have "bstreeToArray ?m ?t (replicate 100 None)
      = Inr (?m, Null, replicate 10 None @ [Some 1, Some 0] @ replicate 88 None)"
    by simp
  moreover have "arrayToBSTree ?m Null (replicate 10 None @ [Some 1, Some 0] @ replicate 88 None)
      = Inl Unset_Links"
    by (simp add: arrayToBSTree_def find_last.simps bisectBuild.simps read_slot_def
        write_slot_def insert_item_def operator_new_def obj_def trunc_div_def nth_append
        list_update_append Let_def)
  ultimately show ?thesis by simp
qed

section \<open>Copying\<close>

lemma obj_extended:
  "cells m' = cells m @ ex \<Longrightarrow> obj m p \<noteq> None \<Longrightarrow> obj m' p = obj m p"
  by (auto simp: obj_def nth_append split: option.splits if_splits)

lemma owned_extended:
  "cells m' = cells m @ ex \<Longrightarrow> owned m t \<Longrightarrow> owned m' t \<and> view m' t = view m t"
  by (induction t) (auto simp: obj_extended)

lemma copyTree_deep:
  assumes "owned m t" and "\<forall>i. \<not> oom m i"
  shows "\<exists>m' t' ex. copyTree m t = Inr (m', t') \<and> oom m' = oom m \<and> cells m' = cells m @ ex
           \<and> owned m' t' \<and> view m' t' = view m t
           \<and> (\<forall>p\<in>set (ptrs t'). obj m p = None)"
  using assms
proof (induction t arbitrary: m)
  case Null
  show ?case
    by (intro exI [of _ m] exI [of _ Null] exI [of _ "[]"]) simp
next
  case (Node d l r)
  from Node.prems obtain v where v: "obj m d = Some v" by auto
  let ?m2 = "m\<lparr>reqs := Suc (Suc (reqs m))\<rparr>"
  let ?a = "length (cells m)"
  let ?m3 = "?m2\<lparr>cells := cells m @ [Some v]\<rparr>"
  have e3: "cells ?m3 = cells m @ [Some v]" by simp
  from Node.prems owned_extended [OF e3] have o3: "owned ?m3 l" "owned ?m3 r"
    and w3: "view ?m3 l = view m l" "view ?m3 r = view m r" by auto
  have n3: "\<forall>i. \<not> oom ?m3 i" using Node.prems by simp
  from Node.IH(1) [OF o3(1) n3] obtain m4 l' ex4 where
    l: "copyTree ?m3 l = Inr (m4, l')" "oom m4 = oom ?m3" "cells m4 = cells ?m3 @ ex4"
       "owned m4 l'" "view m4 l' = view ?m3 l" "\<forall>p\<in>set (ptrs l'). obj ?m3 p = None"
    by blast
  from owned_extended [OF l(3)] o3(2) w3 have o4: "owned m4 r" and w4: "view m4 r = view m r"
    by auto
  have n4: "\<forall>i. \<not> oom m4 i" using n3 l(2) by simp
  from Node.IH(2) [OF o4 n4] obtain m5 r' ex5 where
    r: "copyTree m4 r = Inr (m5, r')" "oom m5 = oom m4" "cells m5 = cells m4 @ ex5"
       "owned m5 r'" "view m5 r' = view m4 r" "\<forall>p\<in>set (ptrs r'). obj m4 p = None"
    by blast
  have c5: "cells m5 = cells m @ ([Some v] @ ex4 @ ex5)" using r(3) l(3) by simp
  have c53: "cells m5 = cells ?m3 @ (ex4 @ ex5)" using r(3) l(3) by simp
  have a3: "obj ?m3 (Some ?a) = Some v" by (simp add: obj_def)
  with obj_extended [OF c53, of "Some ?a"] have a5: "obj m5 (Some ?a) = Some v" by simp
  from owned_extended [OF r(3) l(4)] l(5) w3 have l5: "owned m5 l'" "view m5 l' = view m l"
    by auto
  have fresh_l: "\<forall>p\<in>set (ptrs l'). obj m p = None"
  proof
    fix p assume "p \<in> set (ptrs l')"
    with l(6) have "obj ?m3 p = None" by simp
    with obj_extended [OF e3, of p] show "obj m p = None" by (cases "obj m p") auto
  qed
  have fresh_r: "\<forall>p\<in>set (ptrs r'). obj m p = None"
  proof
    fix p assume "p \<in> set (ptrs r')"
    with r(6) have "obj m4 p = None" by simp
    moreover have "cells m4 = cells m @ ([Some v] @ ex4)" using l(3) by simp
    from obj_extended [OF this, of p] have "obj m p \<noteq> None \<Longrightarrow> obj m4 p = obj m p" .
    ultimately show "obj m p = None" by (cases "obj m p") auto
  qed
  have fresh_a: "obj m (Some ?a) = None" by (simp add: obj_def)
  from v l(1) r(1) Node.prems(2)
  have "copyTree m (Node d l r) = Inr (m5, Node (Some ?a) l' r')"
    by (simp add: operator_new_def construct_def)
  with r(2) l(2) c5 a5 l5 r(4,5) w4 v fresh_l fresh_r fresh_a show ?case
    by (intro exI [of _ m5] exI [of _ "Node (Some ?a) l' r'"] exI [of _ "[Some v] @ ex4 @ ex5"])
      auto
qed


text \<open>
  A copy made without allocation failure has the shape and the element values of the
  original and owns new objects only, so the two trees share no element; by the lemma
  \<open>compare_eq\<close> the equality operation then tells a non-empty tree from its copy.
\<close>

lemma copy_differs_from_original:
  assumes "owned m t" and "\<forall>i. \<not> oom m i" and "t \<noteq> Null"
  shows "\<exists>m' t'. copy_constructor m t = Inr (m', t') \<and> owned m' t' \<and> view m' t' = view m t
           \<and> set (ptrs t') \<inter> set (ptrs t) = {} \<and> \<not> operator_eq t' t"
proof -
  from copyTree_deep [OF assms(1,2)] obtain m' t' where
    c: "copyTree m t = Inr (m', t')" and o: "owned m' t'" and w: "view m' t' = view m t"
    and f: "\<forall>p\<in>set (ptrs t'). obj m p = None"
    by blast
  from assms(1) have live: "\<forall>p\<in>set (ptrs t). obj m p \<noteq> None" by (induction t) auto
  with f have d: "set (ptrs t') \<inter> set (ptrs t) = {}" by auto
  from assms(3) have "ptrs t \<noteq> []" by (cases t) auto
  with d have "t' \<noteq> t" by auto
  then have "\<not> operator_eq t' t" by (simp add: operator_eq_def compare_eq)
  with c o w d show ?thesis by (simp add: copy_constructor_def)
qed

end
